theory Spec2Isabelle
  imports Main "HOL-Library.List_Lexorder" "HOL-Library.Char_ord"
begin

section \<open>Coordination detection (X/src/07_detect_coordination.py)\<close>

text \<open>
  The script is one \<open>main\<close> function made of passes over a line-delimited record file.
  Each pass is embedded as a function from its inputs to the value it builds. Python
  strings are \<open>string\<close> (compared by character code, as Python compares them), Python
  integers are \<open>int\<close>, lengths are \<open>nat\<close>. Dictionaries are association lists in
  insertion order; a Python set is a duplicate-free list, of which the code only takes the
  length, the membership test and the sorted copy. A character is a code point below 256.
  The two places where the script raises on such input are results of the sum type
  \<open>error + 'a\<close>.
\<close>

datatype error =
    UnpackError     \<comment> \<open>\<open>ValueError\<close> of \<open>signal, value, user = line.strip().split("\t")\<close>\<close>
  | DateRangeError  \<comment> \<open>\<open>datetime.fromtimestamp\<close> outside the years 1 to 9999\<close>

subsection \<open>Module constants\<close>

text \<open>
  The module-level constants are gathered in a record so that the thresholds can vary.
  \<open>min_signal_kinds\<close> is the literal 2 of \<open>len(signals_met) >= 2\<close> and
  \<open>top_edges_size\<close> the literal 50 of the bounded heap.
\<close>

record config =
  window_secs :: int
  min_occ :: int
  min_signal_kinds :: nat
  min_item_freq :: int
  max_users_per_item :: nat
  max_edges_for_graph :: nat
  max_bip_edges :: nat
  top_edges_size :: nat

definition default_config :: config where
  "default_config =
     \<lparr>window_secs = 3600, min_occ = 2, min_signal_kinds = 2, min_item_freq = 5,
      max_users_per_item = 200, max_edges_for_graph = 2000000, max_bip_edges = 3000000,
      top_edges_size = 50\<rparr>"

subsection \<open>Input records\<close>

text \<open>
  One decoded line of the input. A key that \<open>r.get\<close> does not find is \<open>None\<close>;
  the four list fields default to the empty list, as \<open>r.get(k, [])\<close> does.
\<close>

record post =
  published_at :: "string option"
  author_id :: "string option"
  urls :: "string list"
  domains :: "string list"
  hashtags :: "string list"
  mentions :: "string list"
  retweeted_tweet_id :: "string option"
  quoted_tweet_id :: "string option"
  conversation_id :: "string option"
  video_id :: "string option"
  in_reply_to_status_id_str :: "string option"

type_synonym item = "string \<times> string"
type_synonym bucket_line = "string \<times> string \<times> string"
type_synonym pair_key = "string \<times> string \<times> string"
type_synonym pair_row = "string \<times> string \<times> string \<times> int"

text \<open>Python truthiness of an optional string: \<open>None\<close> and \<open>""\<close> are false.\<close>

definition truthy :: "string option \<Rightarrow> bool" where
  "truthy x = (case x of None \<Rightarrow> False | Some s \<Rightarrow> s \<noteq> [])"

definition py_or :: "string option \<Rightarrow> string option \<Rightarrow> string option" where
  "py_or x y = (if truthy x then x else y)"

text \<open>\<open>ts.replace("Z", "+00:00")\<close>.\<close>

definition replace_Z :: "string \<Rightarrow> string" where
  "replace_Z ts = concat (map (\<lambda>c. if c = CHR ''Z'' then ''+00:00'' else [c]) ts)"

text \<open>
  \<open>parse_ts\<close>. The library call \<open>datetime.fromisoformat\<close>, followed by the
  conversion to epoch seconds, is the parameter \<open>fromisoformat\<close>; it yields \<open>None\<close>
  where the library raises \<open>ValueError\<close>.
\<close>

definition parse_ts :: "(string \<Rightarrow> int option) \<Rightarrow> string option \<Rightarrow> int option" where
  "parse_ts fromisoformat ts =
     (case ts of
        None \<Rightarrow> None
      | Some s \<Rightarrow> if s = [] then None else fromisoformat (replace_Z s))"

definition add_items :: "item list \<Rightarrow> string \<Rightarrow> string list \<Rightarrow> item list" where
  "add_items items signal values = items @ [(signal, v). v \<leftarrow> values, v \<noteq> []]"

definition add_opt :: "item list \<Rightarrow> string \<Rightarrow> string option \<Rightarrow> item list" where
  "add_opt items signal x =
     (case x of None \<Rightarrow> items | Some v \<Rightarrow> if v \<noteq> [] then items @ [(signal, v)] else items)"

definition extract_items :: "post \<Rightarrow> item list" where
  "extract_items r =
     (let items = add_items [] ''A_URL'' (urls r);
          items = add_items items ''A_DOM'' (domains r);
          items = add_items items ''B_TAG'' (hashtags r);
          items = add_items items ''C_MENT'' (mentions r);
          items = add_opt items ''D_RETWEET'' (retweeted_tweet_id r);
          items = add_opt items ''D_QUOTE'' (quoted_tweet_id r);
          items = add_opt items ''E_CONV'' (py_or (conversation_id r) (video_id r));
          items = add_opt items ''E_REPLY'' (in_reply_to_status_id_str r)
      in items)"

definition to_bip_item :: "string \<Rightarrow> string \<Rightarrow> string option" where
  "to_bip_item signal v =
     (if v = [] then None
      else if signal = ''A_DOM'' then Some (''DOM:'' @ v)
      else if signal = ''D_RETWEET'' then Some (''RT:'' @ v)
      else if signal = ''E_CONV'' then Some (''CONV:'' @ v)
      else if signal = ''C_MENT'' then Some (''MENT:@'' @ v)
      else if signal = ''B_TAG'' then Some (''TAG:#'' @ v)
      else None)"

subsection \<open>Additive dictionaries\<close>

text \<open>
  \<open>d[k] = d.get(k, 0) + n\<close> on an insertion-ordered dictionary. The same shape serves
  the \<open>Counter\<close> of pass 1, the \<open>defaultdict(int)\<close> of pass 3a, \<open>sig_counts\<close> of
  pass 4 and the two SQLite tables, whose \<open>INSERT ... ON CONFLICT DO UPDATE SET
  cnt = cnt + excluded.cnt\<close> adds to the row of an existing primary key.
\<close>

fun counter_add :: "'k \<Rightarrow> int \<Rightarrow> ('k \<times> int) list \<Rightarrow> ('k \<times> int) list" where
  "counter_add k n [] = [(k, n)]"
| "counter_add k n ((k', c) # rest) =
     (if k' = k then (k', c + n) # rest else (k', c) # counter_add k n rest)"

definition counter_get :: "('k \<times> int) list \<Rightarrow> 'k \<Rightarrow> int" where
  "counter_get d k = (case map_of d k of None \<Rightarrow> 0 | Some c \<Rightarrow> c)"

definition upsert_all :: "('k \<times> int) list \<Rightarrow> ('k \<times> int) list \<Rightarrow> ('k \<times> int) list" where
  "upsert_all batch table = fold (\<lambda>(k, c). counter_add k c) batch table"

subsection \<open>Pass 1: global item counts\<close>

definition count_items :: "(string \<Rightarrow> int option) \<Rightarrow> post list \<Rightarrow> (item \<times> int) list" where
  "count_items fromisoformat records =
     fold (\<lambda>r item_counts.
             case parse_ts fromisoformat (published_at r) of
               None \<Rightarrow> item_counts
             | Some ts \<Rightarrow> fold (\<lambda>key. counter_add key 1) (extract_items r) item_counts)
          records []"

definition kept_items :: "config \<Rightarrow> (item \<times> int) list \<Rightarrow> item set" where
  "kept_items cfg item_counts = set [k. (k, c) \<leftarrow> item_counts, min_item_freq cfg \<le> c]"

subsection \<open>Pass 2: bucket files\<close>

text \<open>
  The temporary directory maps the bucket number \<open>n\<close> to the text of
  \<open>bucket_<n>.tsv\<close>. Before the pass the directory is removed with all it holds (the
  bucket files and the database of an earlier run) and created again. Opening a file for
  append creates it, also when no line is written. A line is written as
  \<open>signal TAB value TAB user LF\<close>.
\<close>

definition fresh_tmp_dir :: "(int \<times> string) list \<Rightarrow> (int \<times> string) list" where
  "fresh_tmp_dir stale = []"

fun append_lines :: "int \<Rightarrow> 'a list \<Rightarrow> (int \<times> 'a list) list \<Rightarrow> (int \<times> 'a list) list" where
  "append_lines b new [] = [(b, new)]"
| "append_lines b new ((b', old) # rest) =
     (if b' = b then (b', old @ new) # rest else (b', old) # append_lines b new rest)"

definition line_text :: "bucket_line \<Rightarrow> string" where
  "line_text l = (case l of (signal, v, user) \<Rightarrow>
     signal @ [CHR 0x09] @ v @ [CHR 0x09] @ user @ [CHR 0x0A])"

definition bucketize_step ::
  "config \<Rightarrow> (string \<Rightarrow> int option) \<Rightarrow> item set \<Rightarrow> post
     \<Rightarrow> (int \<times> string) list \<Rightarrow> (int \<times> string) list"
where
  "bucketize_step cfg fromisoformat kept r files =
     (case parse_ts fromisoformat (published_at r) of
        None \<Rightarrow> files
      | Some ts \<Rightarrow>
          (case author_id r of
             None \<Rightarrow> files
           | Some user \<Rightarrow>
               if user = [] then files
               else
                 (let bucket = ts div window_secs cfg;
                      items = extract_items r
                  in if items = [] then files
                     else append_lines bucket
                            (concat (map line_text
                               [(signal, v, user). (signal, v) \<leftarrow> items, (signal, v) \<in> kept]))
                            files)))"

definition bucketize_in ::
  "config \<Rightarrow> (string \<Rightarrow> int option) \<Rightarrow> item set \<Rightarrow> post list \<Rightarrow> (int \<times> string) list
     \<Rightarrow> (int \<times> string) list"
where
  "bucketize_in cfg fromisoformat kept records dir =
     fold (bucketize_step cfg fromisoformat kept) records dir"

definition bucketize ::
  "config \<Rightarrow> (string \<Rightarrow> int option) \<Rightarrow> item set \<Rightarrow> post list \<Rightarrow> (int \<times> string) list"
where
  "bucketize cfg fromisoformat kept records =
     fold (bucketize_step cfg fromisoformat kept) records []"

subsection \<open>Pass 3a: reading a bucket file back\<close>

text \<open>
  The file is read in text mode: \<open>CR LF\<close> and \<open>CR\<close> become \<open>LF\<close>, and the
  lines are the pieces between the \<open>LF\<close>s, a last piece without \<open>LF\<close> being a line
  when it is not empty. \<open>strip\<close> removes the white space at both ends of the line (the
  \<open>LF\<close> at its end too, so the lines are taken without it), \<open>split("\t")\<close> cuts at
  every \<open>TAB\<close>, and the unpacking raises unless there are exactly three pieces.
\<close>

fun universal_newlines :: "string \<Rightarrow> string" where
  "universal_newlines [] = []"
| "universal_newlines [c] = [if c = CHR 0x0D then CHR 0x0A else c]"
| "universal_newlines (c # d # cs) =
     (if c = CHR 0x0D \<and> d = CHR 0x0A then CHR 0x0A # universal_newlines cs
      else if c = CHR 0x0D then CHR 0x0A # universal_newlines (d # cs)
      else c # universal_newlines (d # cs))"

fun split_on :: "char \<Rightarrow> string \<Rightarrow> string list" where
  "split_on sep [] = [[]]"
| "split_on sep (c # cs) =
     (if c = sep then [] # split_on sep cs
      else (case split_on sep cs of [] \<Rightarrow> [[c]] | p # ps \<Rightarrow> (c # p) # ps))"

definition file_lines :: "string \<Rightarrow> string list" where
  "file_lines text =
     (let pieces = split_on (CHR 0x0A) (universal_newlines text)
      in if last pieces = [] then butlast pieces else pieces)"

definition is_space :: "char \<Rightarrow> bool" where
  "is_space c \<longleftrightarrow>
     c \<in> set [CHR 0x09, CHR 0x0A, CHR 0x0B, CHR 0x0C, CHR 0x0D, CHR 0x1C, CHR 0x1D, CHR 0x1E,
              CHR 0x1F, CHR 0x20, CHR 0x85, CHR 0xA0]"

definition strip :: "string \<Rightarrow> string" where
  "strip s = rev (dropWhile is_space (rev (dropWhile is_space s)))"

definition read_line :: "string \<Rightarrow> error + bucket_line" where
  "read_line line =
     (case split_on (CHR 0x09) (strip line) of
        [signal, v, user] \<Rightarrow> Inr (signal, v, user)
      | _ \<Rightarrow> Inl UnpackError)"

fun read_lines :: "string list \<Rightarrow> error + bucket_line list" where
  "read_lines [] = Inr []"
| "read_lines (line # rest) =
     (case read_line line of
        Inl e \<Rightarrow> Inl e
      | Inr l \<Rightarrow> (case read_lines rest of Inl e \<Rightarrow> Inl e | Inr ls \<Rightarrow> Inr (l # ls)))"

definition read_bucket :: "string \<Rightarrow> error + bucket_line list" where
  "read_bucket text = read_lines (file_lines text)"

subsection \<open>Pass 3a: per-bucket aggregation\<close>

text \<open>The functions of this part take the lines of one bucket as read back.\<close>

fun add_user :: "item \<Rightarrow> string \<Rightarrow> (item \<times> string list) list \<Rightarrow> (item \<times> string list) list" where
  "add_user k u [] = [(k, [u])]"
| "add_user k u ((k', us) # rest) =
     (if k' = k then (k', List.insert u us) # rest else (k', us) # add_user k u rest)"

definition item_users_of :: "bucket_line list \<Rightarrow> (item \<times> string list) list" where
  "item_users_of lines = fold (\<lambda>(signal, v, user). add_user (signal, v) user) lines []"

definition bucket_users_of :: "bucket_line list \<Rightarrow> string list" where
  "bucket_users_of lines = fold (\<lambda>(signal, v, user). List.insert user) lines []"

record tops =
  top_item :: "string option"
  top_item_users :: nat
  top_signal :: "string option"
  top_signal_users :: nat

definition top_step :: "item \<times> string list \<Rightarrow> tops \<Rightarrow> tops" where
  "top_step iu t =
     (case iu of ((signal, v), users) \<Rightarrow>
        (let ucount = length users;
             t = (if ucount > top_item_users t
                  then t\<lparr>top_item_users := ucount, top_item := Some (signal @ '':'' @ v)\<rparr>
                  else t);
             t = (if ucount > top_signal_users t
                  then t\<lparr>top_signal_users := ucount, top_signal := Some signal\<rparr>
                  else t)
         in t))"

definition bucket_tops :: "(item \<times> string list) list \<Rightarrow> tops" where
  "bucket_tops item_users =
     fold top_step item_users
       \<lparr>top_item = None, top_item_users = 0, top_signal = None, top_signal_users = 0\<rparr>"

text \<open>
  The increments one item contributes: the body of the second loop over
  \<open>item_users\<close>, one key \<open>(a, b, signal)\<close> for each \<open>bucket_counts[(a, b, signal)] += 1\<close>.
\<close>

definition item_pairs :: "config \<Rightarrow> item \<times> string list \<Rightarrow> pair_key list" where
  "item_pairs cfg iu =
     (case iu of ((signal, v), users) \<Rightarrow>
        if length users < 2 then []
        else if length users > max_users_per_item cfg then []
        else
          (let users = sort users;
               n = length users
           in concat (map (\<lambda>i. map (\<lambda>j. (users ! i, users ! j, signal)) [i + 1 ..< n])
                          [0 ..< n])))"

definition bucket_counts_of :: "config \<Rightarrow> (item \<times> string list) list \<Rightarrow> (pair_key \<times> int) list" where
  "bucket_counts_of cfg item_users =
     fold (\<lambda>iu bucket_counts. fold (\<lambda>k. counter_add k 1) (item_pairs cfg iu) bucket_counts)
          item_users []"

definition num_edges_created_of :: "config \<Rightarrow> (item \<times> string list) list \<Rightarrow> nat" where
  "num_edges_created_of cfg item_users =
     fold (\<lambda>iu num. case iu of (it, users) \<Rightarrow>
             if length users \<ge> 2 \<and> length users \<le> max_users_per_item cfg
             then num + (length users * (length users - 1)) div 2 else num)
          item_users 0"

record bucket_stat =
  active_users :: nat
  num_coord_edges_created :: nat
  stat_top_signal :: string
  stat_top_item :: string

definition or_empty :: "string option \<Rightarrow> string" where
  "or_empty x = (case x of None \<Rightarrow> [] | Some s \<Rightarrow> s)"

definition bucket_stat_of :: "config \<Rightarrow> bucket_line list \<Rightarrow> bucket_stat" where
  "bucket_stat_of cfg lines =
     (let item_users = item_users_of lines;
          t = bucket_tops item_users
      in \<lparr>active_users = length (bucket_users_of lines),
          num_coord_edges_created = num_edges_created_of cfg item_users,
          stat_top_signal = or_empty (top_signal t),
          stat_top_item = or_empty (top_item t)\<rparr>)"

fun dict_set :: "'k \<Rightarrow> 'v \<Rightarrow> ('k \<times> 'v) list \<Rightarrow> ('k \<times> 'v) list" where
  "dict_set k v [] = [(k, v)]"
| "dict_set k v ((k', w) # rest) =
     (if k' = k then (k', v) # rest else (k', w) # dict_set k v rest)"

text \<open>
  The loop over the bucket files, in the order the directory listing gives them. The file
  name \<open>bucket_<n>.tsv\<close> is read back to the number \<open>n\<close> it was built from. A
  line that does not unpack ends the run.
\<close>

fun aggregate_from ::
  "config \<Rightarrow> (int \<times> string) list \<Rightarrow> (pair_key \<times> int) list \<times> (int \<times> bucket_stat) list
     \<Rightarrow> error + (pair_key \<times> int) list \<times> (int \<times> bucket_stat) list"
where
  "aggregate_from cfg [] acc = Inr acc"
| "aggregate_from cfg ((bucket_id, text) # files) acc =
     (case read_bucket text of
        Inl e \<Rightarrow> Inl e
      | Inr lines \<Rightarrow>
          aggregate_from cfg files
            (upsert_all (bucket_counts_of cfg (item_users_of lines)) (fst acc),
             dict_set bucket_id (bucket_stat_of cfg lines) (snd acc)))"

definition aggregate_buckets ::
  "config \<Rightarrow> (int \<times> string) list
     \<Rightarrow> error + (pair_key \<times> int) list \<times> (int \<times> bucket_stat) list"
where
  "aggregate_buckets cfg files = aggregate_from cfg files ([], [])"

subsection \<open>Pass 3b: user-item counts\<close>

text \<open>
  The rows appended to \<open>batch\<close>, in order. The batch is flushed to the table every 5000
  rows and once at the end; every flush upserts its rows in order, so the table is the
  upsert of all the rows in order.
\<close>

definition user_item_rows ::
  "(string \<Rightarrow> int option) \<Rightarrow> item set \<Rightarrow> post list \<Rightarrow> ((string \<times> string) \<times> int) list"
where
  "user_item_rows fromisoformat kept records =
     concat (map (\<lambda>r.
       case parse_ts fromisoformat (published_at r) of
         None \<Rightarrow> []
       | Some ts \<Rightarrow>
           (case author_id r of
              None \<Rightarrow> []
            | Some user \<Rightarrow>
                if user = [] then []
                else concat (map (\<lambda>(signal, v).
                       if (signal, v) \<notin> kept then []
                       else (case to_bip_item signal v of
                               None \<Rightarrow> []
                             | Some item_id \<Rightarrow>
                                 if item_id = [] then [] else [((user, item_id), 1)]))
                     (extract_items r)))) records)"

definition user_item_table ::
  "(string \<Rightarrow> int option) \<Rightarrow> item set \<Rightarrow> post list \<Rightarrow> ((string \<times> string) \<times> int) list"
where
  "user_item_table fromisoformat kept records =
     upsert_all (user_item_rows fromisoformat kept records) []"

subsection \<open>Pass 4: reduction of the ordered scan\<close>

text \<open>
  The text encodings of the outputs (CSV quoting, \<open>json.dumps\<close>, decimal numbers) are
  not modelled: a row is the tuple of its field values. \<open>signals\<close> is the sorted list
  that the code joins with commas, \<open>signal_counts\<close> the dictionary it dumps.
\<close>

record edge_row =
  user_a :: string
  user_b :: string
  num_signals :: nat
  total_occurrences :: int
  signals :: "string list"
  signal_counts :: "(string \<times> int) list"

text \<open>
  \<open>SELECT ... FROM pair_signal ORDER BY user_a, user_b\<close>: the rows of the table, sorted
  by the pair under the byte order of the two texts. SQL leaves the order of rows with
  the same pair open; the stable insertion sort below keeps their table order.
\<close>

definition pair_le :: "string \<times> string \<Rightarrow> string \<times> string \<Rightarrow> bool" where
  "pair_le p q \<longleftrightarrow> fst p < fst q \<or> (fst p = fst q \<and> snd p \<le> snd q)"

definition row_pair :: "pair_row \<Rightarrow> string \<times> string" where
  "row_pair row = (case row of (a, b, signal, cnt) \<Rightarrow> (a, b))"

fun insert_row :: "pair_row \<Rightarrow> pair_row list \<Rightarrow> pair_row list" where
  "insert_row x [] = [x]"
| "insert_row x (y # ys) =
     (if pair_le (row_pair x) (row_pair y) then x # y # ys else y # insert_row x ys)"

definition scan_pair_signal :: "(pair_key \<times> int) list \<Rightarrow> pair_row list" where
  "scan_pair_signal table = foldr insert_row [(a, b, signal, cnt). ((a, b, signal), cnt) \<leftarrow> table] []"

text \<open>
  \<open>heapq\<close> on entries \<open>(score, seq, row)\<close>. The heap is kept as the ascending list of
  its entries (\<open>seq\<close> is unique, so the row is never compared); the array layout of the
  library is not modelled. \<open>heappushpop\<close> pushes and then removes the smallest entry.
\<close>

type_synonym heap_entry = "int \<times> nat \<times> edge_row"

definition entry_le :: "heap_entry \<Rightarrow> heap_entry \<Rightarrow> bool" where
  "entry_le x y \<longleftrightarrow> fst x < fst y \<or> (fst x = fst y \<and> fst (snd x) \<le> fst (snd y))"

fun heappush :: "heap_entry \<Rightarrow> heap_entry list \<Rightarrow> heap_entry list" where
  "heappush e [] = [e]"
| "heappush e (x # h) = (if entry_le e x then e # x # h else x # heappush e h)"

definition heappushpop :: "heap_entry \<Rightarrow> heap_entry list \<Rightarrow> heap_entry list" where
  "heappushpop e h = tl (heappush e h)"

text \<open>
  An undirected \<open>networkx\<close> graph: its edges \<open>(u, v, attributes)\<close> in insertion order.
  \<open>add_edge\<close> on a pair that is already joined, in either direction, replaces the
  attributes of that edge. The coordination graph \<open>G\<close> carries \<open>(weight, signals)\<close>,
  the bipartite graph \<open>B\<close> carries the weight.
\<close>

type_synonym 'x ugraph = "(string \<times> string \<times> 'x) list"

fun add_edge :: "string \<Rightarrow> string \<Rightarrow> 'x \<Rightarrow> 'x ugraph \<Rightarrow> 'x ugraph" where
  "add_edge u v x [] = [(u, v, x)]"
| "add_edge u v x ((u', v', x') # g) =
     (if (u' = u \<and> v' = v) \<or> (u' = v \<and> v' = u) then (u', v', x) # g
      else (u', v', x') # add_edge u v x g)"

definition number_of_nodes :: "'x ugraph \<Rightarrow> nat" where
  "number_of_nodes g = length (remdups (concat (map (\<lambda>(u, v, x). [u, v]) g)))"

definition has_node :: "'x ugraph \<Rightarrow> string \<Rightarrow> bool" where
  "has_node g u \<longleftrightarrow> u \<in> set (concat (map (\<lambda>(a, b, x). [a, b]) g))"

text \<open>The neighbours of a node with the attributes of the joining edge, in adjacency order.\<close>

definition incident :: "'x ugraph \<Rightarrow> string \<Rightarrow> (string \<times> 'x) list" where
  "incident g u =
     concat (map (\<lambda>(a, b, x). if a = u then [(b, x)] else if b = u then [(a, x)] else []) g)"

record reduce_state =
  current :: "(string \<times> string) option"
  sig_counts :: "(string \<times> int) list"
  total_occ :: int
  written :: "edge_row list"
  edges_written :: nat
  edge_seq :: nat
  top_edges :: "heap_entry list"
  graph :: "(int \<times> string list) ugraph"

definition reduce_init :: reduce_state where
  "reduce_init =
     \<lparr>current = None, sig_counts = [], total_occ = 0, written = [], edges_written = 0,
      edge_seq = 0, top_edges = [], graph = []\<rparr>"

text \<open>
  The significance test and the emission of one edge, the block that the code has twice:
  inside the loop on a change of pair, and after the loop for the last pair.
\<close>

definition emit_edge :: "config \<Rightarrow> string \<times> string \<Rightarrow> reduce_state \<Rightarrow> reduce_state" where
  "emit_edge cfg cur st =
     (let signals_met = [s. (s, c) \<leftarrow> sig_counts st, c \<ge> min_occ cfg]
      in if length signals_met \<ge> min_signal_kinds cfg then
           (let row = \<lparr>user_a = fst cur, user_b = snd cur,
                       num_signals = length signals_met,
                       total_occurrences = total_occ st,
                       signals = sort signals_met,
                       signal_counts = sig_counts st\<rparr>;
                n = edges_written st + 1;
                seq = edge_seq st + 1;
                entry = (total_occ st, seq, row)
            in st\<lparr>written := written st @ [row],
                  edges_written := n,
                  edge_seq := seq,
                  top_edges := (if length (top_edges st) < top_edges_size cfg
                                then heappush entry (top_edges st)
                                else heappushpop entry (top_edges st)),
                  graph := (if n \<le> max_edges_for_graph cfg
                            then add_edge (fst cur) (snd cur) (total_occ st, sort signals_met)
                                   (graph st)
                            else graph st)\<rparr>)
         else st)"

text \<open>
  One iteration of \<open>for user_a, user_b, signal, cnt in cur\<close>. \<open>current\<close> is \<open>None\<close>
  only before the first row, where it takes the row's pair and nothing is emitted.
\<close>

definition reduce_step :: "config \<Rightarrow> pair_row \<Rightarrow> reduce_state \<Rightarrow> reduce_state" where
  "reduce_step cfg row st =
     (case row of (a, b, signal, cnt) \<Rightarrow>
        (let key = (a, b);
             cur = (case current st of None \<Rightarrow> key | Some c \<Rightarrow> c);
             st = (if key \<noteq> cur
                   then (emit_edge cfg cur st)\<lparr>current := Some key, sig_counts := [], total_occ := 0\<rparr>
                   else st\<lparr>current := Some cur\<rparr>)
         in st\<lparr>sig_counts := counter_add signal cnt (sig_counts st),
               total_occ := total_occ st + cnt\<rparr>))"

definition reduce_rows :: "config \<Rightarrow> pair_row list \<Rightarrow> reduce_state" where
  "reduce_rows cfg rows =
     (let st = fold (reduce_step cfg) rows reduce_init
      in case current st of None \<Rightarrow> st | Some cur \<Rightarrow> emit_edge cfg cur st)"

subsection \<open>Clusters, bipartite graph and reports\<close>

text \<open>
  \<open>sorted(xs, key=k, reverse=True)\<close>: descending and stable, elements with equal keys
  keep their order. \<open>Counter.most_common(n)\<close> is the first \<open>n\<close> entries of the
  counter sorted so by count.
\<close>

definition sorted_desc :: "('a \<Rightarrow> 'k::linorder) \<Rightarrow> 'a list \<Rightarrow> 'a list" where
  "sorted_desc k xs = rev (sort_key k (rev xs))"

definition most_common :: "nat \<Rightarrow> ('a \<times> int) list \<Rightarrow> ('a \<times> int) list" where
  "most_common n counter = take n (sorted_desc snd counter)"

definition enumerate_from0 :: "'a list \<Rightarrow> (nat \<times> 'a) list" where
  "enumerate_from0 xs = zip [0 ..< length xs] xs"

record cluster_row =
  cluster_id :: nat
  cluster_size :: nat
  users_sample :: "string list"
  top_signals :: "(string \<times> int) list"

text \<open>
  The signal counter of one component: every edge is met from both of its ends. The
  \<open>signals\<close> attribute is split back into the names that were joined.
\<close>

definition component_signals :: "(int \<times> string list) ugraph \<Rightarrow> string list \<Rightarrow> (string \<times> int) list" where
  "component_signals g members =
     fold (\<lambda>u sig_counter.
             fold (\<lambda>(v, (w, sigs)) sig_counter.
                     fold (\<lambda>s sig_counter. if s \<noteq> [] then counter_add s 1 sig_counter else sig_counter)
                          sigs sig_counter)
                  (incident g u) sig_counter)
          members []"

definition cluster_rows :: "(int \<times> string list) ugraph \<Rightarrow> string list list \<Rightarrow> cluster_row list" where
  "cluster_rows g comps =
     sorted_desc cluster_size
       (map (\<lambda>(idx, members).
               \<lparr>cluster_id = idx, cluster_size = length members, users_sample = take 20 members,
                top_signals = most_common 5 (component_signals g members)\<rparr>)
            (enumerate_from0 comps))"

text \<open>
  Pass 5. Above the edge limit the table is read \<open>ORDER BY cnt DESC LIMIT\<close>; SQL leaves
  the order of equal counts open, the stable sort keeps their table order.
\<close>

definition select_user_item :: "config \<Rightarrow> ((string \<times> string) \<times> int) list \<Rightarrow> ((string \<times> string) \<times> int) list" where
  "select_user_item cfg user_item =
     (if length user_item > max_bip_edges cfg
      then take (max_bip_edges cfg) (sorted_desc snd user_item)
      else user_item)"

definition build_bipartite :: "config \<Rightarrow> ((string \<times> string) \<times> int) list \<Rightarrow> int ugraph" where
  "build_bipartite cfg user_item =
     fold (\<lambda>((user_id, item_id), cnt) B. add_edge user_id item_id cnt B)
          (select_user_item cfg user_item) []"

definition startswith :: "string \<Rightarrow> string \<Rightarrow> bool" where
  "startswith s p \<longleftrightarrow> take (length p) s = p"

definition weighted_degree :: "(int \<times> string list) ugraph \<Rightarrow> string \<Rightarrow> int" where
  "weighted_degree g u =
     sum_list (map (\<lambda>(a, b, (w, sigs)). (if a = u then w else 0) + (if b = u then w else 0)) g)"

record top_cluster_row =
  tc_cluster_id :: nat
  tc_size :: nat
  tc_top_signals :: "(string \<times> int) list"
  tc_top_users :: "string list"
  tc_top_items :: "string list"

definition component_items :: "int ugraph \<Rightarrow> string list \<Rightarrow> (string \<times> int) list" where
  "component_items B members =
     fold (\<lambda>u item_counts.
             fold (\<lambda>(item, w) item_counts.
                     if startswith item ''DOM:'' \<or> startswith item ''RT:'' \<or> startswith item ''CONV:''
                        \<or> startswith item ''MENT:@'' \<or> startswith item ''TAG:#''
                     then counter_add item w item_counts else item_counts)
                  (if has_node B u then incident B u else []) item_counts)
          members []"

definition top_cluster_rows ::
  "(int \<times> string list) ugraph \<Rightarrow> int ugraph \<Rightarrow> cluster_row list \<Rightarrow> string list list
     \<Rightarrow> top_cluster_row list"
where
  "top_cluster_rows g B clusters comps =
     sorted_desc tc_size
       (map (\<lambda>(idx, members).
               \<lparr>tc_cluster_id = idx, tc_size = length members,
                tc_top_signals =
                  (case map_of (map (\<lambda>c. (cluster_id c, top_signals c)) clusters) idx of
                     None \<Rightarrow> [] | Some sigs \<Rightarrow> sigs),
                tc_top_users = take 10 (sorted_desc (weighted_degree g) members),
                tc_top_items = map fst (most_common 10 (component_items B members))\<rparr>)
            (enumerate_from0 comps))"

text \<open>
  \<open>datetime.fromtimestamp(ts, tz=timezone.utc).isoformat()\<close>: the text is fixed by the
  instant and stands here as the instant itself; the call raises outside the years 1 to
  9999, that is before -62135596800 or after 253402300799.
\<close>

definition utc_isoformat :: "int \<Rightarrow> error + int" where
  "utc_isoformat ts =
     (if -62135596800 \<le> ts \<and> ts \<le> 253402300799 then Inr ts else Inl DateRangeError)"

text \<open>
  The rows of the time-window report, by ascending bucket: start and end of the bucket
  and its statistics. A bucket whose start or end cannot be printed ends the run.
\<close>

fun time_window_rows_of ::
  "config \<Rightarrow> (int \<times> bucket_stat) list \<Rightarrow> error + (int \<times> int \<times> bucket_stat) list"
where
  "time_window_rows_of cfg [] = Inr []"
| "time_window_rows_of cfg ((bucket_id, row) # rest) =
     (let start_ts = bucket_id * window_secs cfg;
          end_ts = start_ts + window_secs cfg
      in case utc_isoformat start_ts of
           Inl e \<Rightarrow> Inl e
         | Inr bucket_start \<Rightarrow>
             (case utc_isoformat end_ts of
                Inl e \<Rightarrow> Inl e
              | Inr bucket_end \<Rightarrow>
                  (case time_window_rows_of cfg rest of
                     Inl e \<Rightarrow> Inl e
                   | Inr rows \<Rightarrow> Inr ((bucket_start, bucket_end, row) # rows))))"

definition time_window_rows ::
  "config \<Rightarrow> (int \<times> bucket_stat) list \<Rightarrow> error + (int \<times> int \<times> bucket_stat) list"
where
  "time_window_rows cfg bucket_stats = time_window_rows_of cfg (sort_key fst bucket_stats)"

text \<open>
  The files of one run: \<open>None\<close> for a file the run does not write, otherwise the data
  rows that follow the header (for the two graph files, the graph).
\<close>

record outputs =
  out_edges :: "edge_row list option"
  out_clusters :: "cluster_row list option"
  out_graph :: "(int \<times> string list) ugraph option"
  out_bip :: "int ugraph option"
  out_top_clusters :: "top_cluster_row list option"
  out_top_edges :: "edge_row list option"
  out_time_windows :: "(int \<times> int \<times> bucket_stat) list option"

text \<open>
  Passes 4 and 5 and the reports, from the two tables and the rows of the time-window
  report. \<open>connected_components\<close> stands for \<open>nx.connected_components\<close>, with each
  component in the order \<open>list(comp)\<close> gives. The top-edges report writes the columns of
  the edge row other than \<open>num_signals\<close>.
\<close>

definition reports ::
  "config \<Rightarrow> ((int \<times> string list) ugraph \<Rightarrow> string list list) \<Rightarrow> (pair_key \<times> int) list
     \<Rightarrow> ((string \<times> string) \<times> int) list \<Rightarrow> (int \<times> int \<times> bucket_stat) list \<Rightarrow> outputs"
where
  "reports cfg connected_components pair_signal user_item time_windows =
     (let st = reduce_rows cfg (scan_pair_signal pair_signal);
          G = graph st;
          with_graph = (number_of_nodes G > 0 \<and> edges_written st \<le> max_edges_for_graph cfg);
          clusters = (if with_graph then cluster_rows G (connected_components G) else []);
          B = build_bipartite cfg user_item
      in \<lparr>out_edges = Some (written st),
          out_clusters = Some clusters,
          out_graph = (if with_graph then Some G else None),
          out_bip = (if number_of_nodes B > 0 then Some B else None),
          out_top_clusters =
            (if number_of_nodes G > 0
             then Some (top_cluster_rows G B clusters (connected_components G))
             else None),
          out_top_edges = Some (map (\<lambda>(score, seq, row). row) (sorted_desc fst (top_edges st))),
          out_time_windows = Some time_windows\<rparr>)"

text \<open>
  \<open>main\<close>, from the lines of the input file (which exists) and the temporary directory
  an earlier run may have left, to the files written or to the exception that ends the
  run. The time-window report is written last, so when it raises the other files are
  already there; the result \<open>Inl\<close> does not keep them.
\<close>

definition main ::
  "config \<Rightarrow> (string \<Rightarrow> int option) \<Rightarrow> ((int \<times> string list) ugraph \<Rightarrow> string list list)
     \<Rightarrow> (int \<times> string) list \<Rightarrow> post list \<Rightarrow> error + outputs"
where
  "main cfg fromisoformat connected_components stale records =
     (let item_counts = count_items fromisoformat records;
          kept = kept_items cfg item_counts;
          files = bucketize_in cfg fromisoformat kept records (fresh_tmp_dir stale)
      in case aggregate_buckets cfg files of
           Inl e \<Rightarrow> Inl e
         | Inr tables \<Rightarrow>
             (case time_window_rows cfg (snd tables) of
                Inl e \<Rightarrow> Inl e
              | Inr time_windows \<Rightarrow>
                  Inr (reports cfg connected_components (fst tables)
                         (user_item_table fromisoformat kept records) time_windows)))"

section \<open>Notions used in the statements and proofs\<close>

text \<open>
  The nested index loops of the pair aggregator read as a recursion over the sorted user
  list: the first user paired with every later one, then the pairs of the rest.
\<close>

fun ordered_pairs :: "'a list \<Rightarrow> 's \<Rightarrow> ('a \<times> 'a \<times> 's) list" where
  "ordered_pairs [] s = []"
| "ordered_pairs (a # rest) s = map (\<lambda>b. (a, b, s)) rest @ ordered_pairs rest s"

text \<open>
  \<open>tops_at xs i t\<close>: the running maxima \<open>t\<close> describe entry \<open>i\<close> of the item
  dictionary \<open>xs\<close>, which has the most users, and strictly more than every entry before.
\<close>

definition tops_at :: "(item \<times> string list) list \<Rightarrow> nat \<Rightarrow> tops \<Rightarrow> bool" where
  "tops_at xs i t \<longleftrightarrow>
     i < length xs \<and>
     top_item_users t = length (snd (xs ! i)) \<and>
     top_signal_users t = length (snd (xs ! i)) \<and>
     (\<forall>j < length xs. length (snd (xs ! j)) \<le> length (snd (xs ! i))) \<and>
     (\<forall>j < i. length (snd (xs ! j)) < length (snd (xs ! i))) \<and>
     top_item t = Some (fst (fst (xs ! i)) @ '':'' @ snd (fst (xs ! i))) \<and>
     top_signal t = Some (fst (fst (xs ! i)))"

text \<open>
  The number of distinct users over all items of one signal kind in a bucket: the reading
  of ``the signal kind with the most distinct users across all items''.
\<close>

definition signal_user_count :: "bucket_line list \<Rightarrow> string \<Rightarrow> nat" where
  "signal_user_count lines signal =
     length (remdups (concat [users. ((s, v), users) \<leftarrow> item_users_of lines, s = signal]))"

text \<open>An event: a record with a parseable timestamp and a user, the guards of pass 2.\<close>

definition is_event :: "(string \<Rightarrow> int option) \<Rightarrow> post \<Rightarrow> bool" where
  "is_event fromisoformat r \<longleftrightarrow>
     parse_ts fromisoformat (published_at r) \<noteq> None \<and> truthy (author_id r)"

text \<open>
  The reduction loop cuts the scan into maximal runs of rows with the same pair.
  \<open>groups_from p g rows\<close> are the runs when the loop holds pair \<open>p\<close> with the rows
  \<open>g\<close> accumulated; \<open>acc_counts\<close> and \<open>acc_total\<close> are \<open>sig_counts\<close> and
  \<open>total_occ\<close> after a run; \<open>group_edges\<close> is what the significance test emits for it.
\<close>

definition acc_counts :: "pair_row list \<Rightarrow> (string \<times> int) list" where
  "acc_counts g = upsert_all (map (\<lambda>(a, b, signal, cnt). (signal, cnt)) g) []"

definition acc_total :: "pair_row list \<Rightarrow> int" where
  "acc_total g = sum_list (map (\<lambda>(a, b, signal, cnt). cnt) g)"

definition group_edges :: "config \<Rightarrow> (string \<times> string) \<times> pair_row list \<Rightarrow> edge_row list" where
  "group_edges cfg pg =
     written (emit_edge cfg (fst pg)
                (reduce_init\<lparr>sig_counts := acc_counts (snd pg), total_occ := acc_total (snd pg)\<rparr>))"

fun groups_from ::
  "string \<times> string \<Rightarrow> pair_row list \<Rightarrow> pair_row list \<Rightarrow> ((string \<times> string) \<times> pair_row list) list"
where
  "groups_from p g [] = [(p, g)]"
| "groups_from p g (r # rs) =
     (if row_pair r = p then groups_from p (g @ [r]) rs
      else (p, g) # groups_from (row_pair r) [r] rs)"

definition groups :: "pair_row list \<Rightarrow> ((string \<times> string) \<times> pair_row list) list" where
  "groups rows = (case rows of [] \<Rightarrow> [] | r # rs \<Rightarrow> groups_from (row_pair r) [r] rs)"

definition finish :: "config \<Rightarrow> reduce_state \<Rightarrow> reduce_state" where
  "finish cfg st = (case current st of None \<Rightarrow> st | Some cur \<Rightarrow> emit_edge cfg cur st)"

definition ordered_rows :: "pair_row list \<Rightarrow> bool" where
  "ordered_rows rows = sorted_wrt (\<lambda>x y. pair_le (row_pair x) (row_pair y)) rows"

text \<open>
  For a pair of users in a scan: the signal kinds seen, the count accumulated for one
  kind, the kinds that meet the minimum, and the sum of all counts.
\<close>

definition seen_signals :: "pair_row list \<Rightarrow> string \<Rightarrow> string \<Rightarrow> string set" where
  "seen_signals rows a b = {s. \<exists>cnt. (a, b, s, cnt) \<in> set rows}"

definition accumulated :: "pair_row list \<Rightarrow> string \<Rightarrow> string \<Rightarrow> string \<Rightarrow> int" where
  "accumulated rows a b s =
     sum_list (map (\<lambda>(a', b', s', cnt). cnt)
                   (filter (\<lambda>(a', b', s', cnt). a' = a \<and> b' = b \<and> s' = s) rows))"

definition pair_total :: "pair_row list \<Rightarrow> string \<Rightarrow> string \<Rightarrow> int" where
  "pair_total rows a b =
     sum_list (map (\<lambda>(a', b', s', cnt). cnt) (filter (\<lambda>(a', b', s', cnt). a' = a \<and> b' = b) rows))"

definition met_signals :: "config \<Rightarrow> pair_row list \<Rightarrow> string \<Rightarrow> string \<Rightarrow> string set" where
  "met_signals cfg rows a b =
     {s \<in> seen_signals rows a b. min_occ cfg \<le> accumulated rows a b s}"

text \<open>
  For an item: the number of events that contain it, and the number of its occurrences in
  the item lists of the events, repeats inside one event counted.
\<close>

definition events_containing :: "(string \<Rightarrow> int option) \<Rightarrow> post list \<Rightarrow> item \<Rightarrow> nat" where
  "events_containing fromisoformat records it =
     length (filter (\<lambda>r. is_event fromisoformat r \<and> it \<in> set (extract_items r)) records)"

definition occurrences_in_events :: "(string \<Rightarrow> int option) \<Rightarrow> post list \<Rightarrow> item \<Rightarrow> nat" where
  "occurrences_in_events fromisoformat records it =
     sum_list (map (\<lambda>r. count_list (extract_items r) it) (filter (is_event fromisoformat) records))"

text \<open>
  Concrete inputs for the evaluations below: a timestamp parser that knows one instant
  (2024-01-01T00:00:00 UTC, 1704067200 seconds) and a few records.
\<close>

definition iso_example :: "string \<Rightarrow> int option" where
  "iso_example s = (if s = ''2024-01-01T00:00:00+00:00'' then Some 1704067200 else None)"

definition empty_post :: post where
  "empty_post =
     \<lparr>published_at = None, author_id = None, urls = [], domains = [], hashtags = [],
      mentions = [], retweeted_tweet_id = None, quoted_tweet_id = None,
      conversation_id = None, video_id = None, in_reply_to_status_id_str = None\<rparr>"

definition post_repeated_tag :: post where
  "post_repeated_tag =
     empty_post\<lparr>published_at := Some ''2024-01-01T00:00:00Z'', author_id := Some ''u1'',
                hashtags := [''x'', ''x'']\<rparr>"

definition post_without_user :: post where
  "post_without_user =
     empty_post\<lparr>published_at := Some ''2024-01-01T00:00:00Z'', hashtags := [''x'']\<rparr>"

text \<open>The body of the loop of pass 1, for one record.\<close>

definition count_step :: "(string \<Rightarrow> int option) \<Rightarrow> post \<Rightarrow> (item \<times> int) list \<Rightarrow> (item \<times> int) list" where
  "count_step f r item_counts =
     (case parse_ts f (published_at r) of
        None \<Rightarrow> item_counts
      | Some ts \<Rightarrow> fold (\<lambda>key. counter_add key 1) (extract_items r) item_counts)"

definition post_two_tags :: post where
  "post_two_tags =
     empty_post\<lparr>published_at := Some ''2024-01-01T00:00:00Z'', author_id := Some ''u1'',
                hashtags := [''x'', ''y'']\<rparr>"


text \<open>
  For a connected graph with at least one edge, its single component with the members in
  ascending and in descending order: two of the orders \<open>list(comp)\<close> may give.
\<close>

definition graph_nodes :: "'x ugraph \<Rightarrow> string list" where
  "graph_nodes g = remdups (concat (map (\<lambda>(u, v, x). [u, v]) g))"

definition one_component_asc :: "(int \<times> string list) ugraph \<Rightarrow> string list list" where
  "one_component_asc g = [sort (graph_nodes g)]"

definition one_component_desc :: "(int \<times> string list) ugraph \<Rightarrow> string list list" where
  "one_component_desc g = [rev (sort (graph_nodes g))]"

text \<open>Two users who share a domain and a hashtag in one hour, and thresholds of 1.\<close>

definition post_shared_u1 :: post where
  "post_shared_u1 =
     empty_post\<lparr>published_at := Some ''2024-01-01T00:00:00Z'', author_id := Some ''u1'',
                domains := [''d''], hashtags := [''x'']\<rparr>"

definition post_shared_u2 :: post where
  "post_shared_u2 =
     empty_post\<lparr>published_at := Some ''2024-01-01T00:00:00Z'', author_id := Some ''u2'',
                domains := [''d''], hashtags := [''x'']\<rparr>"

definition low_thresholds :: config where
  "low_thresholds = default_config\<lparr>min_occ := 1, min_item_freq := 1\<rparr>"






section \<open>Additive dictionaries\<close>

lemma counter_add_keys: "fst ` set (counter_add k n d) = insert k (fst ` set d)"
proof (induction d)
  case Nil
  show ?case by simp
next
  case (Cons x d)
  obtain k' c where x: "x = (k', c)" by (cases x)
  show ?case unfolding x using Cons.IH by (cases "k' = k") (simp_all add: insert_commute)
qed

lemma counter_add_distinct:
  "distinct (map fst d) \<Longrightarrow> distinct (map fst (counter_add k n d))"
proof (induction d)
  case Nil
  then show ?case by simp
next
  case (Cons x d)
  obtain k' c where x: "x = (k', c)" by (cases x)
  have keys: "fst ` set (counter_add k n d) = insert k (fst ` set d)" by (rule counter_add_keys)
  show ?case
  proof (cases "k' = k")
    case True
    with Cons.prems x show ?thesis by simp
  next
    case False
    with Cons x keys show ?thesis by simp
  qed
qed

lemma counter_get_add:
  "counter_get (counter_add k n d) k' = counter_get d k' + (if k' = k then n else 0)"
proof (induction d)
  case Nil
  show ?case by (simp add: counter_get_def)
next
  case (Cons x d)
  obtain k2 c where x: "x = (k2, c)" by (cases x)
  show ?case
  proof (cases "k2 = k")
    case True
    then show ?thesis unfolding x by (simp add: counter_get_def)
  next
    case False
    then show ?thesis unfolding x using Cons.IH by (auto simp: counter_get_def)
  qed
qed

lemma upsert_all_keys: "fst ` set (upsert_all batch d) = fst ` set d \<union> fst ` set batch"
proof (induction batch arbitrary: d)
  case Nil
  show ?case by (simp add: upsert_all_def)
next
  case (Cons x batch)
  obtain k c where x: "x = (k, c)" by (cases x)
  have "upsert_all (x # batch) d = upsert_all batch (counter_add k c d)"
    by (simp add: upsert_all_def x)
  then show ?case using Cons.IH[of "counter_add k c d"] by (simp add: counter_add_keys x)
qed

lemma upsert_all_distinct:
  "distinct (map fst d) \<Longrightarrow> distinct (map fst (upsert_all batch d))"
proof (induction batch arbitrary: d)
  case Nil
  then show ?case by (simp add: upsert_all_def)
next
  case (Cons x batch)
  obtain k c where x: "x = (k, c)" by (cases x)
  have "upsert_all (x # batch) d = upsert_all batch (counter_add k c d)"
    by (simp add: upsert_all_def x)
  then show ?case using Cons.IH[of "counter_add k c d"] Cons.prems
    by (simp add: counter_add_distinct)
qed

lemma upsert_all_get:
  "counter_get (upsert_all batch d) k = counter_get d k + sum_list (map snd (filter (\<lambda>(k', c). k' = k) batch))"
proof (induction batch arbitrary: d)
  case Nil
  show ?case by (simp add: upsert_all_def)
next
  case (Cons x batch)
  obtain k2 c where x: "x = (k2, c)" by (cases x)
  have "upsert_all (x # batch) d = upsert_all batch (counter_add k2 c d)"
    by (simp add: upsert_all_def x)
  then show ?case using Cons.IH[of "counter_add k2 c d"]
    by (simp add: counter_get_add x)
qed

lemma counter_get_mem:
  assumes "distinct (map fst d)"
  shows "(k, c) \<in> set d \<longleftrightarrow> k \<in> fst ` set d \<and> counter_get d k = c"
proof
  assume "(k, c) \<in> set d"
  then have "map_of d k = Some c" using assms by simp
  then show "k \<in> fst ` set d \<and> counter_get d k = c"
    using \<open>(k, c) \<in> set d\<close> by (force simp: counter_get_def)
next
  assume a: "k \<in> fst ` set d \<and> counter_get d k = c"
  then obtain c' where c': "(k, c') \<in> set d" by auto
  then have "map_of d k = Some c'" using assms by simp
  with a have "c' = c" by (simp add: counter_get_def)
  with c' show "(k, c) \<in> set d" by simp
qed


section \<open>The per-bucket aggregator\<close>

lemma add_user_keys: "fst ` set (add_user k u d) = insert k (fst ` set d)"
proof (induction d)
  case Nil
  show ?case by simp
next
  case (Cons x d)
  obtain k' us where x: "x = (k', us)" by (cases x)
  show ?case unfolding x using Cons.IH by (cases "k' = k") (simp_all add: insert_commute)
qed

lemma add_user_distinct_keys: "distinct (map fst d) \<Longrightarrow> distinct (map fst (add_user k u d))"
proof (induction d)
  case Nil
  then show ?case by simp
next
  case (Cons x d)
  obtain k' us where x: "x = (k', us)" by (cases x)
  have keys: "fst ` set (add_user k u d) = insert k (fst ` set d)" by (rule add_user_keys)
  show ?case
  proof (cases "k' = k")
    case True
    with Cons.prems x show ?thesis by simp
  next
    case False
    with Cons x keys show ?thesis by simp
  qed
qed

lemma add_user_users:
  assumes "\<And>k' us. (k', us) \<in> set d \<Longrightarrow> distinct us \<and> us \<noteq> []"
    and "(k', us) \<in> set (add_user k u d)"
  shows "distinct us \<and> us \<noteq> []"
  using assms
proof (induction d)
  case Nil
  then show ?case by simp
next
  case (Cons x d)
  obtain k2 us2 where x: "x = (k2, us2)" by (cases x)
  have us2: "distinct us2 \<and> us2 \<noteq> []" using Cons.prems(1)[of k2 us2] x by simp
  show ?case
  proof (cases "k2 = k")
    case True
    with Cons.prems(2) x have "(k', us) = (k2, List.insert u us2) \<or> (k', us) \<in> set d" by simp
    then show ?thesis
    proof
      assume "(k', us) = (k2, List.insert u us2)"
      then show ?thesis using us2 by (simp add: List.insert_def)
    next
      assume "(k', us) \<in> set d"
      then show ?thesis using Cons.prems(1)[of k' us] by simp
    qed
  next
    case False
    with Cons.prems(2) x have "(k', us) = (k2, us2) \<or> (k', us) \<in> set (add_user k u d)" by simp
    then show ?thesis
    proof
      assume "(k', us) = (k2, us2)"
      then show ?thesis using us2 by simp
    next
      assume "(k', us) \<in> set (add_user k u d)"
      then show ?thesis using Cons.IH Cons.prems(1) by (meson list.set_intros(2))
    qed
  qed
qed

lemma fold_add_user_inv:
  assumes "distinct (map fst d)"
    and "\<And>k us. (k, us) \<in> set d \<Longrightarrow> distinct us \<and> us \<noteq> []"
  shows "distinct (map fst (fold (\<lambda>(signal, v, user). add_user (signal, v) user) lines d)) \<and>
   (\<forall>k us. (k, us) \<in> set (fold (\<lambda>(signal, v, user). add_user (signal, v) user) lines d)
       \<longrightarrow> distinct us \<and> us \<noteq> [])"
  using assms
proof (induction lines arbitrary: d)
  case Nil
  then show ?case by simp
next
  case (Cons l lines)
  obtain s v u where l: "l = (s, v, u)" by (cases l)
  have a: "distinct (map fst (add_user (s, v) u d))"
    using Cons.prems(1) by (rule add_user_distinct_keys)
  have b: "\<And>k us. (k, us) \<in> set (add_user (s, v) u d) \<Longrightarrow> distinct us \<and> us \<noteq> []"
    using add_user_users[of d _ _ "(s, v)" u] Cons.prems(2) by blast
  from Cons.IH[OF a b] show ?case by (simp add: l)
qed

lemma item_users_of_keys_distinct: "distinct (map fst (item_users_of lines))"
  unfolding item_users_of_def using fold_add_user_inv[of "[]" lines] by simp

lemma item_users_of_users:
  "(k, us) \<in> set (item_users_of lines) \<Longrightarrow> distinct us \<and> us \<noteq> []"
  unfolding item_users_of_def using fold_add_user_inv[of "[]" lines] by (cases k) simp

lemma sum_descending: "(\<Sum>i\<leftarrow>[0..<n]. n - Suc i) = n * (n - 1) div 2"
proof -
  have "(\<Sum>i\<leftarrow>[0..<n]. n - Suc i) = (\<Sum>i<n. n - Suc i)"
    by (simp add: interv_sum_list_conv_sum_set_nat atLeast0LessThan)
  also have "\<dots> = (\<Sum>i<n. i)"
    by (rule sum.nat_diff_reindex)
  also have "\<dots> = n * (n - 1) div 2"
    using Sum_Ico_nat[of 0 n] by (simp add: atLeast0LessThan)
  finally show ?thesis .
qed

lemma length_index_pairs:
  "length (concat (map (\<lambda>i. map (f i) [i + 1 ..< n]) [0 ..< n])) = n * (n - 1) div 2"
proof -
  have "map length (map (\<lambda>i. map (f i) [i + 1 ..< n]) [0 ..< n]) = map (\<lambda>i. n - Suc i) [0 ..< n]"
    by simp
  then show ?thesis
    using sum_descending[of n] by (simp only: length_concat)
qed

lemma set_index_pairs:
  "set (concat (map (\<lambda>i. map (\<lambda>j. (xs ! i, xs ! j, s)) [i + 1 ..< length xs]) [0 ..< length xs]))
   = {(xs ! i, xs ! j, s) | i j. i < j \<and> j < length xs}"
proof -
  have "set (concat (map (\<lambda>i. map (\<lambda>j. (xs ! i, xs ! j, s)) [i + 1 ..< length xs]) [0 ..< length xs]))
     = (\<Union>i\<in>{0..<length xs}. (\<lambda>j. (xs ! i, xs ! j, s)) ` {Suc i..<length xs})"
    by simp
  also have "\<dots> = {(xs ! i, xs ! j, s) | i j. i < j \<and> j < length xs}"
  proof (rule set_eqI)
    fix p
    show "p \<in> (\<Union>i\<in>{0..<length xs}. (\<lambda>j. (xs ! i, xs ! j, s)) ` {Suc i..<length xs})
       \<longleftrightarrow> p \<in> {(xs ! i, xs ! j, s) | i j. i < j \<and> j < length xs}"
    proof
      assume "p \<in> (\<Union>i\<in>{0..<length xs}. (\<lambda>j. (xs ! i, xs ! j, s)) ` {Suc i..<length xs})"
      then obtain i j where "i < length xs" "Suc i \<le> j" "j < length xs" "p = (xs ! i, xs ! j, s)"
        by auto
      then have "i < j \<and> j < length xs \<and> p = (xs ! i, xs ! j, s)" by simp
      then show "p \<in> {(xs ! i, xs ! j, s) | i j. i < j \<and> j < length xs}" by blast
    next
      assume "p \<in> {(xs ! i, xs ! j, s) | i j. i < j \<and> j < length xs}"
      then obtain i j where ij: "i < j" "j < length xs" "p = (xs ! i, xs ! j, s)" by blast
      then have "i \<in> {0..<length xs}" "j \<in> {Suc i..<length xs}" by simp_all
      with ij(3) show "p \<in> (\<Union>i\<in>{0..<length xs}. (\<lambda>j. (xs ! i, xs ! j, s)) ` {Suc i..<length xs})"
        by blast
    qed
  qed
  finally show ?thesis .
qed

lemma strict_sorted_nth_less:
  fixes xs :: "'a::linorder list"
  assumes "sorted xs" "distinct xs" "i < j" "j < length xs"
  shows "xs ! i < xs ! j"
proof -
  have "xs ! i \<le> xs ! j" using assms by (simp add: sorted_nth_mono)
  moreover have "xs ! i \<noteq> xs ! j" using assms by (simp add: nth_eq_iff_index_eq)
  ultimately show ?thesis by simp
qed


lemma ordered_pairs_fst: "(p, q, t) \<in> set (ordered_pairs xs s) \<Longrightarrow> p \<in> set xs"
  by (induction xs) auto

lemma distinct_ordered_pairs: "distinct xs \<Longrightarrow> distinct (ordered_pairs xs s)"
proof (induction xs)
  case Nil
  then show ?case by simp
next
  case (Cons a rest)
  have 1: "distinct (map (\<lambda>b. (a, b, s)) rest)"
    using Cons.prems by (simp add: distinct_map inj_on_def)
  have 2: "distinct (ordered_pairs rest s)" using Cons by simp
  have 3: "set (map (\<lambda>b. (a, b, s)) rest) \<inter> set (ordered_pairs rest s) = {}"
    using Cons.prems ordered_pairs_fst[of a _ _ rest s] by auto
  from 1 2 3 show ?case by simp
qed

lemma index_pairs_Cons:
  "concat (map (\<lambda>i. map (\<lambda>j. ((a # xs) ! i, (a # xs) ! j, s)) [i + 1 ..< length (a # xs)]) [0 ..< length (a # xs)])
   = map (\<lambda>b. (a, b, s)) xs
     @ concat (map (\<lambda>i. map (\<lambda>j. (xs ! i, xs ! j, s)) [i + 1 ..< length xs]) [0 ..< length xs])"
proof -
  have up: "[0 ..< length (a # xs)] = 0 # map Suc [0 ..< length xs]"
    by (simp add: upt_conv_Cons map_Suc_upt del: upt_Suc)
  have inner0: "map (\<lambda>j. ((a # xs) ! 0, (a # xs) ! j, s)) [0 + 1 ..< length (a # xs)] = map (\<lambda>b. (a, b, s)) xs"
  proof -
    have "[0 + 1 ..< length (a # xs)] = map Suc [0 ..< length xs]"
      by (simp add: map_Suc_upt del: upt_Suc)
    then have "map (\<lambda>j. ((a # xs) ! 0, (a # xs) ! j, s)) [0 + 1 ..< length (a # xs)]
       = map (\<lambda>j. (a, xs ! j, s)) [0 ..< length xs]"
      by (simp add: comp_def del: upt_Suc)
    also have "\<dots> = map (\<lambda>b. (a, b, s)) (map (\<lambda>j. xs ! j) [0 ..< length xs])"
      by (simp add: comp_def del: upt_Suc)
    also have "\<dots> = map (\<lambda>b. (a, b, s)) xs"
      by (simp only: map_nth)
    finally show ?thesis .
  qed
  have innerS: "\<And>i. map (\<lambda>j. ((a # xs) ! Suc i, (a # xs) ! j, s)) [Suc i + 1 ..< length (a # xs)]
      = map (\<lambda>j. (xs ! i, xs ! j, s)) [i + 1 ..< length xs]"
  proof -
    fix i
    have "[Suc i + 1 ..< length (a # xs)] = map Suc [i + 1 ..< length xs]"
      by (simp add: map_Suc_upt del: upt_Suc)
    then show "map (\<lambda>j. ((a # xs) ! Suc i, (a # xs) ! j, s)) [Suc i + 1 ..< length (a # xs)]
      = map (\<lambda>j. (xs ! i, xs ! j, s)) [i + 1 ..< length xs]"
      by (simp add: comp_def del: upt_Suc)
  qed
  show ?thesis
    unfolding up by (simp only: list.map concat.simps inner0 map_map comp_def innerS)
qed

lemma index_pairs_eq:
  "concat (map (\<lambda>i. map (\<lambda>j. (xs ! i, xs ! j, s)) [i + 1 ..< length xs]) [0 ..< length xs])
   = ordered_pairs xs s"
proof (induction xs)
  case Nil
  show ?case by simp
next
  case (Cons a xs)
  show ?case by (simp only: index_pairs_Cons Cons.IH ordered_pairs.simps)
qed


lemma top_step_first:
  assumes "snd x \<noteq> []"
  shows "tops_at [x] 0 (top_step x \<lparr>top_item = None, top_item_users = 0, top_signal = None, top_signal_users = 0\<rparr>)"
proof -
  obtain s v us where x: "x = ((s, v), us)" by (cases x) auto
  with assms have "0 < length us" by simp
  then show ?thesis by (simp add: x tops_at_def top_step_def Let_def)
qed

lemma top_step_keep:
  assumes "tops_at xs i t" and "length (snd x) \<le> top_item_users t"
  shows "tops_at (xs @ [x]) i (top_step x t)"
proof -
  obtain s v us where x: "x = ((s, v), us)" by (cases x) auto
  have i: "i < length xs" using assms(1) by (simp add: tops_at_def)
  have same: "top_step x t = t"
    using assms by (simp add: x tops_at_def top_step_def Let_def)
  have le: "\<forall>j < length (xs @ [x]). length (snd ((xs @ [x]) ! j)) \<le> length (snd (xs ! i))"
  proof (intro allI impI)
    fix j assume "j < length (xs @ [x])"
    then consider "j < length xs" | "j = length xs" by fastforce
    then show "length (snd ((xs @ [x]) ! j)) \<le> length (snd (xs ! i))"
    proof cases
      case 1
      then show ?thesis using assms(1) by (simp add: tops_at_def nth_append)
    next
      case 2
      then show ?thesis using assms by (simp add: tops_at_def nth_append)
    qed
  qed
  have lt: "\<forall>j < i. length (snd ((xs @ [x]) ! j)) < length (snd (xs ! i))"
    using assms(1) i by (simp add: tops_at_def nth_append)
  show ?thesis
    unfolding same using assms(1) i le lt by (simp add: tops_at_def nth_append)
qed

lemma top_step_new:
  assumes "tops_at xs i t" and "top_item_users t < length (snd x)"
  shows "tops_at (xs @ [x]) (length xs) (top_step x t)"
proof -
  obtain s v us where x: "x = ((s, v), us)" by (cases x) auto
  have i: "i < length xs" using assms(1) by (simp add: tops_at_def)
  have eq: "top_signal_users t = top_item_users t" using assms(1) by (simp add: tops_at_def)
  have all: "\<forall>j < length xs. length (snd (xs ! j)) < length us"
    using assms x by (auto simp: tops_at_def)
  have le: "\<forall>j < length (xs @ [x]). length (snd ((xs @ [x]) ! j)) \<le> length us"
  proof (intro allI impI)
    fix j assume "j < length (xs @ [x])"
    then consider "j < length xs" | "j = length xs" by fastforce
    then show "length (snd ((xs @ [x]) ! j)) \<le> length us"
    proof cases
      case 1
      then show ?thesis using all by (simp add: nth_append less_imp_le)
    next
      case 2
      then show ?thesis by (simp add: x)
    qed
  qed
  have lt: "\<forall>j < length xs. length (snd ((xs @ [x]) ! j)) < length us"
    using all by (simp add: nth_append)
  have st: "top_step x t = t\<lparr>top_item_users := length us, top_item := Some (s @ '':'' @ v),
                              top_signal_users := length us, top_signal := Some s\<rparr>"
    using assms(2) eq by (simp add: x top_step_def Let_def)
  show ?thesis
    unfolding st using le lt by (simp add: tops_at_def x)
qed

lemma fold_top_step_tops_at:
  assumes "xs \<noteq> []" and "\<forall>x \<in> set xs. snd x \<noteq> []"
  shows "\<exists>i. tops_at xs i (bucket_tops xs)"
  using assms
proof (induction xs rule: rev_induct)
  case Nil
  then show ?case by simp
next
  case (snoc x xs)
  show ?case
  proof (cases "xs = []")
    case True
    then show ?thesis using top_step_first[of x] snoc.prems(2) by (auto simp: bucket_tops_def)
  next
    case False
    then obtain i where i: "tops_at xs i (bucket_tops xs)" using snoc by auto
    have unf: "bucket_tops (xs @ [x]) = top_step x (bucket_tops xs)"
      by (simp add: bucket_tops_def)
    show ?thesis
    proof (cases "length (snd x) \<le> top_item_users (bucket_tops xs)")
      case True
      from top_step_keep[OF i True] show ?thesis unfolding unf by blast
    next
      case False
      then have "top_item_users (bucket_tops xs) < length (snd x)" by simp
      from top_step_new[OF i this] show ?thesis unfolding unf by blast
    qed
  qed
qed


lemma set_sorted_pairs:
  fixes xs :: "'a::linorder list"
  assumes "sorted xs" "distinct xs"
  shows "{(xs ! i, xs ! j, s) | i j. i < j \<and> j < length xs}
       = {(a, b, s) | a b. a \<in> set xs \<and> b \<in> set xs \<and> a < b}"
proof (rule set_eqI)
  fix p
  show "p \<in> {(xs ! i, xs ! j, s) | i j. i < j \<and> j < length xs}
    \<longleftrightarrow> p \<in> {(a, b, s) | a b. a \<in> set xs \<and> b \<in> set xs \<and> a < b}"
  proof
    assume "p \<in> {(xs ! i, xs ! j, s) | i j. i < j \<and> j < length xs}"
    then obtain i j where ij: "i < j" "j < length xs" "p = (xs ! i, xs ! j, s)" by blast
    then have "xs ! i < xs ! j" using assms by (simp add: strict_sorted_nth_less)
    moreover have "xs ! i \<in> set xs" "xs ! j \<in> set xs" using ij by simp_all
    ultimately show "p \<in> {(a, b, s) | a b. a \<in> set xs \<and> b \<in> set xs \<and> a < b}"
      using ij(3) by blast
  next
    assume "p \<in> {(a, b, s) | a b. a \<in> set xs \<and> b \<in> set xs \<and> a < b}"
    then obtain a b where ab: "a \<in> set xs" "b \<in> set xs" "a < b" "p = (a, b, s)" by blast
    then obtain i j where ij: "i < length xs" "xs ! i = a" "j < length xs" "xs ! j = b"
      by (metis in_set_conv_nth)
    have "i < j"
    proof (rule ccontr)
      assume "\<not> i < j"
      then have "j \<le> i" by simp
      then have "xs ! j \<le> xs ! i" using assms(1) ij(1) by (simp add: sorted_nth_mono)
      with ij ab(3) show False by simp
    qed
    with ij ab(4) show "p \<in> {(xs ! i, xs ! j, s) | i j. i < j \<and> j < length xs}" by blast
  qed
qed

lemma item_pairs_in_range:
  assumes "2 \<le> length users" "length users \<le> max_users_per_item cfg"
  shows "item_pairs cfg ((signal, v), users) =
     concat (map (\<lambda>i. map (\<lambda>j. (sort users ! i, sort users ! j, signal)) [i + 1 ..< length (sort users)])
                 [0 ..< length (sort users)])"
  using assms by (simp add: item_pairs_def Let_def)

lemma item_pairs_shape:
  assumes "((signal, v), users) \<in> set (item_users_of lines)"
    and "2 \<le> length users" and "length users \<le> max_users_per_item cfg"
  shows "length (item_pairs cfg ((signal, v), users)) = length users * (length users - 1) div 2
       \<and> distinct (item_pairs cfg ((signal, v), users))
       \<and> set (item_pairs cfg ((signal, v), users))
           = {(a, b, signal) | a b. a \<in> set users \<and> b \<in> set users \<and> a < b}"
proof -
  let ?xs = "sort users"
  have d: "distinct users" using item_users_of_users[OF assms(1)] by simp
  have ip: "item_pairs cfg ((signal, v), users) =
     concat (map (\<lambda>i. map (\<lambda>j. (?xs ! i, ?xs ! j, signal)) [i + 1 ..< length ?xs]) [0 ..< length ?xs])"
    using assms(2,3) by (rule item_pairs_in_range)
  have 1: "length (item_pairs cfg ((signal, v), users)) = length users * (length users - 1) div 2"
    unfolding ip using length_index_pairs[of "\<lambda>i j. (?xs ! i, ?xs ! j, signal)" "length ?xs"]
    by simp
  have 2: "distinct (item_pairs cfg ((signal, v), users))"
    unfolding ip index_pairs_eq using d by (simp add: distinct_ordered_pairs)
  have "set (item_pairs cfg ((signal, v), users))
      = {(?xs ! i, ?xs ! j, signal) | i j. i < j \<and> j < length ?xs}"
    unfolding ip by (rule set_index_pairs)
  also have "\<dots> = {(a, b, signal) | a b. a \<in> set ?xs \<and> b \<in> set ?xs \<and> a < b}"
    by (rule set_sorted_pairs) (use d in simp_all)
  finally have 3: "set (item_pairs cfg ((signal, v), users))
      = {(a, b, signal) | a b. a \<in> set users \<and> b \<in> set users \<and> a < b}" by simp
  from 1 2 3 show ?thesis by blast
qed

lemma item_users_of_nonempty: "lines \<noteq> [] \<Longrightarrow> item_users_of lines \<noteq> []"
proof -
  have keys: "fst ` set (fold (\<lambda>(signal, v, user). add_user (signal, v) user) lines d)
        = fst ` set d \<union> (\<lambda>(signal, v, user). (signal, v)) ` set lines" for d
  proof (induction lines arbitrary: d)
    case Nil
    show ?case by simp
  next
    case (Cons l lines)
    obtain s v u where l: "l = (s, v, u)" by (cases l)
    show ?case unfolding l using Cons.IH[of "add_user (s, v) u d"]
      by (simp add: add_user_keys Un_commute insert_commute)
  qed
  assume "lines \<noteq> []"
  then have "(\<lambda>(signal, v, user). (signal, v)) ` set lines \<noteq> {}" by simp
  then have "fst ` set (item_users_of lines) \<noteq> {}"
    unfolding item_users_of_def keys by simp
  then show ?thesis by auto
qed

lemma bucket_tops_at:
  assumes "lines \<noteq> []"
  shows "\<exists>i. tops_at (item_users_of lines) i (bucket_tops (item_users_of lines))"
proof (rule fold_top_step_tops_at)
  show "item_users_of lines \<noteq> []" using assms by (rule item_users_of_nonempty)
  show "\<forall>x\<in>set (item_users_of lines). snd x \<noteq> []"
  proof
    fix x assume "x \<in> set (item_users_of lines)"
    then have "(fst x, snd x) \<in> set (item_users_of lines)" by simp
    then show "snd x \<noteq> []" using item_users_of_users by blast
  qed
qed

text \<open>
  Claim C5, as amended. For every bucket with at least one line, \<open>top_signal\<close> is the
  signal kind of a single item: the first item of the bucket's item dictionary whose
  number of distinct users is the greatest among all items. It is the kind of
  \<open>top_item\<close>, and the per-item user cap plays no part.
\<close>

theorem top_signal_is_kind_of_top_item:
  assumes "lines \<noteq> []"
  shows "\<exists>i < length (item_users_of lines).
           (\<forall>j < length (item_users_of lines).
               length (snd (item_users_of lines ! j)) \<le> length (snd (item_users_of lines ! i)))
         \<and> (\<forall>j < i. length (snd (item_users_of lines ! j)) < length (snd (item_users_of lines ! i)))
         \<and> stat_top_signal (bucket_stat_of cfg lines) = fst (fst (item_users_of lines ! i))
         \<and> stat_top_item (bucket_stat_of cfg lines)
             = fst (fst (item_users_of lines ! i)) @ '':'' @ snd (fst (item_users_of lines ! i))"
proof -
  from bucket_tops_at[OF assms] obtain i where
    i: "tops_at (item_users_of lines) i (bucket_tops (item_users_of lines))" by blast
  have s: "stat_top_signal (bucket_stat_of cfg lines) = or_empty (top_signal (bucket_tops (item_users_of lines)))"
    and t: "stat_top_item (bucket_stat_of cfg lines) = or_empty (top_item (bucket_tops (item_users_of lines)))"
    by (simp_all add: bucket_stat_of_def Let_def)
  from i show ?thesis unfolding s t tops_at_def by (auto simp: or_empty_def)
qed

lemma capped_item_top:
  assumes "((signal, v), users) \<in> set (item_users_of lines)"
    and "length users < 2 \<or> max_users_per_item cfg < length users"
  shows "item_pairs cfg ((signal, v), users) = []
       \<and> ((\<forall>iu \<in> set (item_users_of lines). iu \<noteq> ((signal, v), users) \<longrightarrow> length (snd iu) < length users)
            \<longrightarrow> stat_top_item (bucket_stat_of cfg lines) = signal @ '':'' @ v
              \<and> stat_top_signal (bucket_stat_of cfg lines) = signal)"
proof -
  have 1: "item_pairs cfg ((signal, v), users) = []"
    using assms(2) by (auto simp: item_pairs_def)
  have 2: "stat_top_item (bucket_stat_of cfg lines) = signal @ '':'' @ v
              \<and> stat_top_signal (bucket_stat_of cfg lines) = signal"
    if most: "\<forall>iu \<in> set (item_users_of lines). iu \<noteq> ((signal, v), users) \<longrightarrow> length (snd iu) < length users"
  proof -
    let ?xs = "item_users_of lines"
    have ne: "lines \<noteq> []" using assms(1) by (auto simp: item_users_of_def)
    from bucket_tops_at[OF ne] obtain i where i: "tops_at ?xs i (bucket_tops ?xs)" by blast
    then have il: "i < length ?xs" by (simp add: tops_at_def)
    obtain k where k: "k < length ?xs" "?xs ! k = ((signal, v), users)"
      using assms(1) by (metis in_set_conv_nth)
    have "length (snd (?xs ! k)) \<le> length (snd (?xs ! i))" using i k(1) by (simp add: tops_at_def)
    then have le: "length users \<le> length (snd (?xs ! i))" using k(2) by simp
    have "?xs ! i = ((signal, v), users)"
    proof (rule ccontr)
      assume "?xs ! i \<noteq> ((signal, v), users)"
      moreover have "?xs ! i \<in> set ?xs" using il by simp
      ultimately have "length (snd (?xs ! i)) < length users" using most by blast
      with le show False by simp
    qed
    then have "top_item (bucket_tops ?xs) = Some (signal @ '':'' @ v)"
      and "top_signal (bucket_tops ?xs) = Some signal"
      using i by (simp_all add: tops_at_def)
    then show ?thesis by (simp add: bucket_stat_of_def Let_def or_empty_def)
  qed
  from 1 2 show ?thesis by blast
qed

lemma union_example_items: "item_users_of
      [(''A_DOM'', ''x'', ''u1''), (''A_DOM'', ''x'', ''u2''), (''A_DOM'', ''x'', ''u3''),
       (''B_TAG'', ''p'', ''u1''), (''B_TAG'', ''p'', ''u2''),
       (''B_TAG'', ''q'', ''u3''), (''B_TAG'', ''q'', ''u4'')]
   = [((''A_DOM'', ''x''), [''u3'', ''u2'', ''u1'']), ((''B_TAG'', ''p''), [''u2'', ''u1'']),
      ((''B_TAG'', ''q''), [''u4'', ''u3''])]"
  by (simp add: item_users_of_def)

text \<open>
  Claim C5 as stated fails: here \<open>B_TAG\<close> has 4 distinct users over its two items and
  \<open>A_DOM\<close> has 3, and the recorded \<open>top_signal\<close> is \<open>A_DOM\<close>.
\<close>

theorem top_signal_union_counterexample:
  "stat_top_signal (bucket_stat_of default_config
      [(''A_DOM'', ''x'', ''u1''), (''A_DOM'', ''x'', ''u2''), (''A_DOM'', ''x'', ''u3''),
       (''B_TAG'', ''p'', ''u1''), (''B_TAG'', ''p'', ''u2''),
       (''B_TAG'', ''q'', ''u3''), (''B_TAG'', ''q'', ''u4'')]) = ''A_DOM''
   \<and> signal_user_count
      [(''A_DOM'', ''x'', ''u1''), (''A_DOM'', ''x'', ''u2''), (''A_DOM'', ''x'', ''u3''),
       (''B_TAG'', ''p'', ''u1''), (''B_TAG'', ''p'', ''u2''),
       (''B_TAG'', ''q'', ''u3''), (''B_TAG'', ''q'', ''u4'')] ''A_DOM'' = 3
   \<and> signal_user_count
      [(''A_DOM'', ''x'', ''u1''), (''A_DOM'', ''x'', ''u2''), (''A_DOM'', ''x'', ''u3''),
       (''B_TAG'', ''p'', ''u1''), (''B_TAG'', ''p'', ''u2''),
       (''B_TAG'', ''q'', ''u3''), (''B_TAG'', ''q'', ''u4'')] ''B_TAG'' = 4"
  by (simp add: bucket_stat_of_def signal_user_count_def union_example_items bucket_tops_def top_step_def
        or_empty_def Let_def)

theorem top_signal_is_kind_of_top_item_witness:
  "[(''B_TAG'', ''p'', ''u1''), (''A_DOM'', ''x'', ''u1''), (''A_DOM'', ''x'', ''u2'')] \<noteq> []
   \<and> (\<exists>i < length (item_users_of [(''B_TAG'', ''p'', ''u1''), (''A_DOM'', ''x'', ''u1''), (''A_DOM'', ''x'', ''u2'')]).
         stat_top_signal (bucket_stat_of default_config
            [(''B_TAG'', ''p'', ''u1''), (''A_DOM'', ''x'', ''u1''), (''A_DOM'', ''x'', ''u2'')])
         = fst (fst (item_users_of [(''B_TAG'', ''p'', ''u1''), (''A_DOM'', ''x'', ''u1''), (''A_DOM'', ''x'', ''u2'')] ! i)))"
proof -
  have ne: "[(''B_TAG'', ''p'', ''u1''), (''A_DOM'', ''x'', ''u1''), (''A_DOM'', ''x'', ''u2'')] \<noteq> []"
    by simp
  from top_signal_is_kind_of_top_item[OF ne, of default_config] ne show ?thesis by blast
qed

section \<open>The reduction pass\<close>

lemma emit_edge_written:
  "written (emit_edge cfg p st) =
   written st @ group_edges cfg (p, g)"
  if "sig_counts st = acc_counts g" "total_occ st = acc_total g"
  using that by (simp add: emit_edge_def group_edges_def Let_def reduce_init_def)

lemma emit_edge_keeps:
  "current (emit_edge cfg p st) = current st"
  "sig_counts (emit_edge cfg p st) = sig_counts st"
  "total_occ (emit_edge cfg p st) = total_occ st"
  by (simp_all add: emit_edge_def Let_def)

lemma acc_counts_snoc: "acc_counts (g @ [(a, b, s, c)]) = counter_add s c (acc_counts g)"
  by (simp add: acc_counts_def upsert_all_def)

lemma acc_total_snoc: "acc_total (g @ [(a, b, s, c)]) = acc_total g + c"
  by (simp add: acc_total_def)

lemma reduce_step_same:
  assumes "current st = Some p" "row_pair r = p"
    "sig_counts st = acc_counts g" "total_occ st = acc_total g"
  shows "current (reduce_step cfg r st) = Some p
       \<and> sig_counts (reduce_step cfg r st) = acc_counts (g @ [r])
       \<and> total_occ (reduce_step cfg r st) = acc_total (g @ [r])
       \<and> written (reduce_step cfg r st) = written st"
proof -
  obtain a b s c where r: "r = (a, b, s, c)" by (cases r)
  show ?thesis using assms
    by (simp add: r reduce_step_def row_pair_def Let_def acc_counts_snoc acc_total_snoc)
qed

lemma reduce_step_change:
  assumes "current st = Some p" "row_pair r \<noteq> p"
    "sig_counts st = acc_counts g" "total_occ st = acc_total g"
  shows "current (reduce_step cfg r st) = Some (row_pair r)
       \<and> sig_counts (reduce_step cfg r st) = acc_counts [r]
       \<and> total_occ (reduce_step cfg r st) = acc_total [r]
       \<and> written (reduce_step cfg r st) = written st @ group_edges cfg (p, g)"
proof -
  obtain a b s c where r: "r = (a, b, s, c)" by (cases r)
  have w: "written (emit_edge cfg p st) = written st @ group_edges cfg (p, g)"
    using assms(3,4) by (rule emit_edge_written)
  show ?thesis using assms(1,2) w
    by (simp add: r reduce_step_def row_pair_def Let_def acc_counts_def acc_total_def upsert_all_def)
qed

lemma loop_groups:
  assumes "current st = Some p" "sig_counts st = acc_counts g" "total_occ st = acc_total g"
  shows "written (finish cfg (fold (reduce_step cfg) rows st))
       = written st @ concat (map (group_edges cfg) (groups_from p g rows))"
  using assms
proof (induction rows arbitrary: st p g)
  case Nil
  then show ?case by (simp add: finish_def emit_edge_written)
next
  case (Cons r rows)
  show ?case
  proof (cases "row_pair r = p")
    case True
    from reduce_step_same[OF Cons.prems(1) True Cons.prems(2,3), of cfg]
    have s: "current (reduce_step cfg r st) = Some p"
      "sig_counts (reduce_step cfg r st) = acc_counts (g @ [r])"
      "total_occ (reduce_step cfg r st) = acc_total (g @ [r])"
      "written (reduce_step cfg r st) = written st" by simp_all
    from Cons.IH[OF s(1,2,3)] s(4) True show ?thesis by simp
  next
    case False
    from reduce_step_change[OF Cons.prems(1) False Cons.prems(2,3), of cfg]
    have s: "current (reduce_step cfg r st) = Some (row_pair r)"
      "sig_counts (reduce_step cfg r st) = acc_counts [r]"
      "total_occ (reduce_step cfg r st) = acc_total [r]"
      "written (reduce_step cfg r st) = written st @ group_edges cfg (p, g)" by simp_all
    from Cons.IH[OF s(1,2,3)] s(4) False show ?thesis by simp
  qed
qed

lemma reduce_rows_groups:
  "written (reduce_rows cfg rows) = concat (map (group_edges cfg) (groups rows))"
proof (cases rows)
  case Nil
  then show ?thesis by (simp add: reduce_rows_def groups_def reduce_init_def)
next
  case (Cons r rs)
  obtain a b s c where r: "r = (a, b, s, c)" by (cases r)
  let ?st = "reduce_step cfg r reduce_init"
  have 1: "current ?st = Some (row_pair r)"
    by (simp add: r reduce_step_def reduce_init_def row_pair_def Let_def)
  have 2: "sig_counts ?st = acc_counts [r]"
    by (simp add: r reduce_step_def reduce_init_def row_pair_def Let_def acc_counts_def upsert_all_def)
  have 3: "total_occ ?st = acc_total [r]"
    by (simp add: r reduce_step_def reduce_init_def row_pair_def Let_def acc_total_def)
  have 4: "written ?st = []"
    by (simp add: r reduce_step_def reduce_init_def row_pair_def Let_def)
  have "reduce_rows cfg rows = finish cfg (fold (reduce_step cfg) rs ?st)"
    by (simp add: reduce_rows_def finish_def Cons Let_def)
  then show ?thesis using loop_groups[OF 1 2 3, of cfg rs] 4 by (simp add: groups_def Cons)
qed

lemma pair_le_antisym: "pair_le p q \<Longrightarrow> pair_le q p \<Longrightarrow> p = q"
  by (auto simp: pair_le_def prod_eq_iff)

lemma pair_le_total: "pair_le p q \<or> pair_le q p"
  by (auto simp: pair_le_def)

lemma pair_le_trans: "pair_le p q \<Longrightarrow> pair_le q r \<Longrightarrow> pair_le p r"
  by (auto simp: pair_le_def)

lemma groups_from_sorted:
  assumes "ordered_rows (g @ rows)" "g \<noteq> []" "\<forall>r\<in>set g. row_pair r = p"
  shows "(\<forall>q h. (q, h) \<in> set (groups_from p g rows) \<longrightarrow>
            h \<noteq> [] \<and> h = filter (\<lambda>r. row_pair r = q) (g @ rows))
       \<and> distinct (map fst (groups_from p g rows))
       \<and> fst ` set (groups_from p g rows) = row_pair ` set (g @ rows)"
  using assms
proof (induction rows arbitrary: p g)
  case Nil
  have "filter (\<lambda>r. row_pair r = p) g = g" using Nil.prems(3) by (simp add: filter_id_conv)
  moreover have "row_pair ` set g = {p}" using Nil.prems(2,3) by (cases g) auto
  ultimately show ?case using Nil.prems(2) by simp
next
  case (Cons r rows)
  show ?case
  proof (cases "row_pair r = p")
    case True
    have a: "ordered_rows ((g @ [r]) @ rows)" using Cons.prems(1) by simp
    have b: "g @ [r] \<noteq> []" by simp
    have c: "\<forall>x\<in>set (g @ [r]). row_pair x = p" using Cons.prems(3) True by simp
    from Cons.IH[OF a b c] True show ?thesis by simp
  next
    case False
    let ?q = "row_pair r"
    have a: "ordered_rows ([r] @ rows)"
      using Cons.prems(1) by (simp add: ordered_rows_def sorted_wrt_append)
    have c: "\<forall>x\<in>set [r]. row_pair x = ?q" by simp
    have b: "[r] \<noteq> []" by simp
    note ih = Cons.IH[OF a b c]
    have ih0: "\<And>q h. (q, h) \<in> set (groups_from ?q [r] rows) \<Longrightarrow>
                 h \<noteq> [] \<and> h = filter (\<lambda>x. row_pair x = q) ([r] @ rows)"
      using ih by blast
    have ih1: "\<And>q h. (q, h) \<in> set (groups_from ?q [r] rows) \<Longrightarrow>
                 h \<noteq> [] \<and> h = filter (\<lambda>x. row_pair x = q) (r # rows)"
      using ih0 by (metis append_Cons append_Nil)
    have ih2: "distinct (map fst (groups_from ?q [r] rows))"
      using ih by blast
    have "fst ` set (groups_from ?q [r] rows) = row_pair ` set ([r] @ rows)"
      using ih by blast
    then have ih3: "fst ` set (groups_from ?q [r] rows) = row_pair ` set (r # rows)"
      by (simp only: append_Cons append_Nil)
    have le_p: "\<And>x. x \<in> set (r # rows) \<Longrightarrow> pair_le p (row_pair x)"
    proof -
      fix x assume x: "x \<in> set (r # rows)"
      obtain y where y: "y \<in> set g" using Cons.prems(2) by (cases g) auto
      then have "pair_le (row_pair y) (row_pair x)"
        using Cons.prems(1) x by (auto simp: ordered_rows_def sorted_wrt_append)
      then show "pair_le p (row_pair x)" using Cons.prems(3) y by simp
    qed
    have le_q: "\<And>x. x \<in> set (r # rows) \<Longrightarrow> pair_le ?q (row_pair x)"
    proof -
      fix x assume x: "x \<in> set (r # rows)"
      show "pair_le ?q (row_pair x)"
      proof (cases "x = r")
        case True
        then show ?thesis by (simp add: pair_le_def)
      next
        case False
        with x have "x \<in> set rows" by simp
        then show ?thesis using a by (simp add: ordered_rows_def)
      qed
    qed
    have ne: "\<And>x. x \<in> set (r # rows) \<Longrightarrow> row_pair x \<noteq> p"
    proof
      fix x assume x: "x \<in> set (r # rows)" and e: "row_pair x = p"
      have "pair_le p ?q" using le_p[of r] by simp
      moreover have "pair_le ?q p" using le_q[OF x] e by simp
      ultimately have "p = ?q" by (rule pair_le_antisym)
      with False show False by simp
    qed
    have fp: "filter (\<lambda>x. row_pair x = p) (g @ r # rows) = g"
    proof -
      have "filter (\<lambda>x. row_pair x = p) g = g" using Cons.prems(3) by (simp add: filter_id_conv)
      moreover have "filter (\<lambda>x. row_pair x = p) (r # rows) = []"
        using ne by (simp only: filter_empty_conv) blast
      ultimately show ?thesis by simp
    qed
    have fq: "\<And>q. q \<noteq> p \<Longrightarrow> filter (\<lambda>x. row_pair x = q) (g @ r # rows)
                = filter (\<lambda>x. row_pair x = q) (r # rows)"
    proof -
      fix q assume "q \<noteq> p"
      then have "filter (\<lambda>x. row_pair x = q) g = []"
        using Cons.prems(3) by (simp only: filter_empty_conv) blast
      then show "filter (\<lambda>x. row_pair x = q) (g @ r # rows)
                = filter (\<lambda>x. row_pair x = q) (r # rows)" by simp
    qed
    have pnot: "p \<notin> fst ` set (groups_from ?q [r] rows)"
      unfolding ih3 using ne by blast
    have g1: "groups_from p g (r # rows) = (p, g) # groups_from ?q [r] rows"
      using False by simp
    have part1: "\<forall>q h. (q, h) \<in> set (groups_from p g (r # rows)) \<longrightarrow>
            h \<noteq> [] \<and> h = filter (\<lambda>x. row_pair x = q) (g @ r # rows)"
    proof (intro allI impI)
      fix q h assume "(q, h) \<in> set (groups_from p g (r # rows))"
      then consider "q = p" "h = g" | "(q, h) \<in> set (groups_from ?q [r] rows)"
        unfolding g1 by auto
      then show "h \<noteq> [] \<and> h = filter (\<lambda>x. row_pair x = q) (g @ r # rows)"
      proof cases
        case 1
        then show ?thesis using fp Cons.prems(2) by simp
      next
        case 2
        then have "q \<in> fst ` set (groups_from ?q [r] rows)" by force
        with pnot have qp: "q \<noteq> p" by blast
        show ?thesis unfolding fq[OF qp] using ih1[OF 2] .
      qed
    qed
    have part2: "distinct (map fst (groups_from p g (r # rows)))"
      unfolding g1 using ih2 pnot by simp
    have "row_pair ` set g = {p}" using Cons.prems(2,3) by (cases g) auto
    then have part3: "fst ` set (groups_from p g (r # rows)) = row_pair ` set (g @ r # rows)"
      unfolding g1 using ih3 by (auto simp: image_Un)
    from part1 part2 part3 show ?thesis by blast
  qed
qed


lemma set_insert_row: "set (insert_row x xs) = insert x (set xs)"
  by (induction xs) auto

lemma ordered_insert_row: "ordered_rows xs \<Longrightarrow> ordered_rows (insert_row x xs)"
proof (induction xs)
  case Nil
  show ?case by (simp add: ordered_rows_def)
next
  case (Cons y ys)
  show ?case
  proof (cases "pair_le (row_pair x) (row_pair y)")
    case True
    have "\<forall>z\<in>set ys. pair_le (row_pair x) (row_pair z)"
      using Cons.prems True pair_le_trans by (auto simp: ordered_rows_def)
    then show ?thesis using Cons.prems True by (simp add: ordered_rows_def)
  next
    case False
    then have yx: "pair_le (row_pair y) (row_pair x)" using pair_le_total by blast
    have "ordered_rows ys" using Cons.prems by (simp add: ordered_rows_def)
    then have "ordered_rows (insert_row x ys)" by (rule Cons.IH)
    moreover have "\<forall>z\<in>set (insert_row x ys). pair_le (row_pair y) (row_pair z)"
      using Cons.prems yx by (simp add: ordered_rows_def set_insert_row)
    ultimately show ?thesis using False by (simp add: ordered_rows_def)
  qed
qed

lemma ordered_foldr_insert_row: "ordered_rows (foldr insert_row xs [])"
  by (induction xs) (simp_all add: ordered_insert_row, simp add: ordered_rows_def)

lemma set_foldr_insert_row: "set (foldr insert_row xs []) = set xs"
  by (induction xs) (simp_all add: set_insert_row)

lemma ordered_scan: "ordered_rows (scan_pair_signal table)"
  by (simp add: scan_pair_signal_def ordered_foldr_insert_row)

lemma set_scan:
  "set (scan_pair_signal table) = (\<lambda>((a, b, s), c). (a, b, s, c)) ` set table"
  by (auto simp: scan_pair_signal_def set_foldr_insert_row image_iff split: prod.splits)


lemma groups_sorted:
  assumes "ordered_rows rows"
  shows "(\<forall>q h. (q, h) \<in> set (groups rows) \<longrightarrow> h = filter (\<lambda>r. row_pair r = q) rows)
       \<and> distinct (map fst (groups rows))
       \<and> fst ` set (groups rows) = row_pair ` set rows"
proof (cases rows)
  case Nil
  then show ?thesis by (simp add: groups_def)
next
  case (Cons r rs)
  have a: "ordered_rows ([r] @ rs)" using assms Cons by simp
  have b: "[r] \<noteq> []" by simp
  have c: "\<forall>x\<in>set [r]. row_pair x = row_pair r" by simp
  have g: "groups rows = groups_from (row_pair r) [r] rs" by (simp add: groups_def Cons)
  have rr: "rows = [r] @ rs" by (simp add: Cons)
  show ?thesis unfolding g unfolding rr using groups_from_sorted[OF a b c] by blast
qed

lemma acc_total_filter:
  "acc_total (filter (\<lambda>r. row_pair r = (a, b)) rows) = pair_total rows a b"
  by (induction rows) (auto simp: acc_total_def pair_total_def row_pair_def)

lemma acc_counts_distinct: "distinct (map fst (acc_counts g))"
  by (simp add: acc_counts_def upsert_all_distinct)

lemma acc_counts_keys_filter:
  "fst ` set (acc_counts (filter (\<lambda>r. row_pair r = (a, b)) rows)) = seen_signals rows a b"
proof -
  have "fst ` set (acc_counts g) = (\<lambda>(a, b, s, c). s) ` set g" for g
    by (induction g) (auto simp: acc_counts_def upsert_all_keys image_iff)
  then show ?thesis
    by (auto simp: seen_signals_def row_pair_def image_iff split: prod.splits) 
qed

lemma acc_counts_get_filter:
  "counter_get (acc_counts (filter (\<lambda>r. row_pair r = (a, b)) rows)) s = accumulated rows a b s"
proof -
  let ?g = "filter (\<lambda>r. row_pair r = (a, b)) rows"
  have 1: "sum_list (map snd (filter (\<lambda>(k', c). k' = s)
           (map (\<lambda>(a', b', signal, cnt). (signal, cnt)) ?g)))
      = accumulated rows a b s"
    by (induction rows) (auto simp: accumulated_def row_pair_def)
  have "counter_get (acc_counts ?g) s
      = counter_get [] s + sum_list (map snd (filter (\<lambda>(k', c). k' = s)
           (map (\<lambda>(a', b', signal, cnt). (signal, cnt)) ?g)))"
    unfolding acc_counts_def by (rule upsert_all_get)
  also have "counter_get ([] :: (string \<times> int) list) s = 0" by (simp add: counter_get_def)
  finally show ?thesis using 1 by (simp only: add_0)
qed

lemma met_list:
  assumes "distinct (map fst d)"
  shows "distinct [s. (s, c) \<leftarrow> d, (m::int) \<le> c]
       \<and> set [s. (s, c) \<leftarrow> d, m \<le> c] = {s \<in> fst ` set d. m \<le> counter_get d s}"
proof -
  have eq: "[s. (s, c) \<leftarrow> d, m \<le> c] = map fst (filter (\<lambda>(s, c). m \<le> c) d)"
    by (induction d) auto
  have 1: "distinct (map fst (filter (\<lambda>(s, c). m \<le> c) d))"
    using assms by (rule distinct_map_filter)
  have 2: "set (map fst (filter (\<lambda>(s, c). m \<le> c) d)) = {s \<in> fst ` set d. m \<le> counter_get d s}"
  proof (rule set_eqI)
    fix s
    have "s \<in> set (map fst (filter (\<lambda>(s, c). m \<le> c) d)) \<longleftrightarrow> (\<exists>c. (s, c) \<in> set d \<and> m \<le> c)"
      by (auto simp: image_iff)
    also have "\<dots> \<longleftrightarrow> s \<in> fst ` set d \<and> m \<le> counter_get d s"
      by (auto simp: counter_get_mem[OF assms])
    finally show "s \<in> set (map fst (filter (\<lambda>(s, c). m \<le> c) d)) \<longleftrightarrow>
       s \<in> {s \<in> fst ` set d. m \<le> counter_get d s}" by simp
  qed
  show ?thesis using 1 2 by (simp only: eq)
qed

lemma met_length_filter:
  "length [s. (s, c) \<leftarrow> acc_counts (filter (\<lambda>r. row_pair r = (a, b)) rows), min_occ cfg \<le> c]
   = card (met_signals cfg rows a b)"
proof -
  let ?d = "acc_counts (filter (\<lambda>r. row_pair r = (a, b)) rows)"
  let ?met = "[s. (s, c) \<leftarrow> ?d, min_occ cfg \<le> c]"
  have m: "distinct ?met \<and> set ?met = {s \<in> fst ` set ?d. min_occ cfg \<le> counter_get ?d s}"
    using acc_counts_distinct by (rule met_list)
  then have "set ?met = met_signals cfg rows a b"
    by (simp add: met_signals_def acc_counts_keys_filter acc_counts_get_filter)
  moreover have "length ?met = card (set ?met)" using m distinct_card[of ?met] by (simp only:)
  ultimately show ?thesis by (simp only:)
qed

lemma group_edges_filter:
  "group_edges cfg ((a, b), filter (\<lambda>r. row_pair r = (a, b)) rows) =
     (if min_signal_kinds cfg \<le> card (met_signals cfg rows a b) then
        [\<lparr>user_a = a, user_b = b, num_signals = card (met_signals cfg rows a b),
          total_occurrences = pair_total rows a b,
          signals = sort [s. (s, c) \<leftarrow> acc_counts (filter (\<lambda>r. row_pair r = (a, b)) rows), min_occ cfg \<le> c],
          signal_counts = acc_counts (filter (\<lambda>r. row_pair r = (a, b)) rows)\<rparr>]
      else [])"
  using met_length_filter[where a=a and b=b and rows=rows and cfg=cfg]
  by (simp add: group_edges_def emit_edge_def Let_def reduce_init_def acc_total_filter)


lemma group_edges_shape:
  "group_edges cfg (p, g) =
     (if min_signal_kinds cfg \<le> length [s. (s, c) \<leftarrow> acc_counts g, min_occ cfg \<le> c] then
        [\<lparr>user_a = fst p, user_b = snd p,
          num_signals = length [s. (s, c) \<leftarrow> acc_counts g, min_occ cfg \<le> c],
          total_occurrences = acc_total g,
          signals = sort [s. (s, c) \<leftarrow> acc_counts g, min_occ cfg \<le> c],
          signal_counts = acc_counts g\<rparr>]
      else [])"
  by (simp add: group_edges_def emit_edge_def Let_def reduce_init_def)

lemma met_eq_filter: "[s. (s, c) \<leftarrow> d, (m::int) \<le> c] = map fst (filter (\<lambda>(s, c). m \<le> c) d)"
  by (induction d) auto

lemma filter_length_mono:
  "(\<And>x. P x \<Longrightarrow> Q x) \<Longrightarrow> length (filter P xs) \<le> length (filter Q xs)"
  by (induction xs) simp_all

lemma met_length_mono:
  assumes "(m::int) \<le> m'"
  shows "length [s. (s, c) \<leftarrow> d, m' \<le> c] \<le> length [s. (s, c) \<leftarrow> d, m \<le> c]"
proof -
  have "length (filter (\<lambda>(s, c). m' \<le> c) d) \<le> length (filter (\<lambda>(s, c). m \<le> c) d)"
    by (rule filter_length_mono) (use assms in auto)
  then show ?thesis by (simp only: met_eq_filter length_map)
qed

lemma group_edges_antitone:
  assumes "min_occ cfg \<le> min_occ cfg'" "min_signal_kinds cfg \<le> min_signal_kinds cfg'"
  shows "length (group_edges cfg' pg) \<le> length (group_edges cfg pg)
       \<and> (\<lambda>e. (user_a e, user_b e)) ` set (group_edges cfg' pg)
           \<subseteq> (\<lambda>e. (user_a e, user_b e)) ` set (group_edges cfg pg)"
proof -
  obtain p g where pg: "pg = (p, g)" by (cases pg)
  have "length [s. (s, c) \<leftarrow> acc_counts g, min_occ cfg' \<le> c]
      \<le> length [s. (s, c) \<leftarrow> acc_counts g, min_occ cfg \<le> c]"
    using assms(1) by (rule met_length_mono)
  then have imp: "min_signal_kinds cfg' \<le> length [s. (s, c) \<leftarrow> acc_counts g, min_occ cfg' \<le> c]
     \<Longrightarrow> min_signal_kinds cfg \<le> length [s. (s, c) \<leftarrow> acc_counts g, min_occ cfg \<le> c]"
    using assms(2) by linarith
  show ?thesis
  proof (cases "min_signal_kinds cfg' \<le> length [s. (s, c) \<leftarrow> acc_counts g, min_occ cfg' \<le> c]")
    case True
    from imp[OF True] True show ?thesis
      unfolding pg by (simp only: group_edges_shape if_True) simp
  next
    case False
    then show ?thesis unfolding pg by (simp only: group_edges_shape if_False) simp
  qed
qed

lemma concat_length_mono:
  assumes "\<And>x. length (f x) \<le> length (g x)"
  shows "length (concat (map f xs)) \<le> length (concat (map g xs))"
proof (induction xs)
  case Nil
  show ?case by simp
next
  case (Cons x xs)
  have "length (f x) \<le> length (g x)" by (rule assms)
  with Cons.IH show ?case by simp
qed

lemma concat_image_mono:
  assumes "\<And>x. h ` set (f x) \<subseteq> h ` set (g x)"
  shows "h ` set (concat (map f xs)) \<subseteq> h ` set (concat (map g xs))"
proof
  fix y assume "y \<in> h ` set (concat (map f xs))"
  then obtain e where e: "e \<in> set (concat (map f xs))" "y = h e" by blast
  then obtain x where x: "x \<in> set xs" "e \<in> set (f x)" by auto
  then have "h e \<in> h ` set (f x)" by blast
  then have "h e \<in> h ` set (g x)" using assms by blast
  then obtain e' where e': "e' \<in> set (g x)" "h e' = h e" by auto
  then have "e' \<in> set (concat (map g xs))" using x(1) by auto
  then show "y \<in> h ` set (concat (map g xs))" using e' e(2) by (metis imageI)
qed


lemma reduce_step_edges_written:
  "edges_written st = length (written st) \<Longrightarrow>
   edges_written (reduce_step cfg r st) = length (written (reduce_step cfg r st))"
  by (cases r) (simp add: reduce_step_def emit_edge_def Let_def)

lemma fold_reduce_step_edges_written:
  "edges_written st = length (written st) \<Longrightarrow>
   edges_written (fold (reduce_step cfg) rows st) = length (written (fold (reduce_step cfg) rows st))"
  by (induction rows arbitrary: st) (simp_all add: reduce_step_edges_written)

lemma edges_written_length:
  "edges_written (reduce_rows cfg rows) = length (written (reduce_rows cfg rows))"
proof -
  have "edges_written (fold (reduce_step cfg) rows reduce_init)
      = length (written (fold (reduce_step cfg) rows reduce_init))"
    by (rule fold_reduce_step_edges_written) (simp add: reduce_init_def)
  then show ?thesis
    by (simp add: reduce_rows_def Let_def emit_edge_def split: option.splits)
qed

text \<open>
  Claim C7. For the same scan, raising \<open>min_occ\<close> (the minimum occurrences per signal)
  or the minimum number of distinct signal kinds never increases the number of edges the
  reduction emits, and the pairs that get an edge under the higher thresholds are among
  those that get one under the lower.
\<close>

theorem significance_antitone:
  assumes "min_occ cfg \<le> min_occ cfg'" "min_signal_kinds cfg \<le> min_signal_kinds cfg'"
  shows "edges_written (reduce_rows cfg' rows) \<le> edges_written (reduce_rows cfg rows)
       \<and> (\<lambda>e. (user_a e, user_b e)) ` set (written (reduce_rows cfg' rows))
           \<subseteq> (\<lambda>e. (user_a e, user_b e)) ` set (written (reduce_rows cfg rows))"
proof -
  note ga = group_edges_antitone[OF assms]
  have "length (concat (map (group_edges cfg') (groups rows)))
          \<le> length (concat (map (group_edges cfg) (groups rows)))"
    by (rule concat_length_mono) (use ga in blast)
  moreover have "(\<lambda>e. (user_a e, user_b e)) ` set (concat (map (group_edges cfg') (groups rows)))
          \<subseteq> (\<lambda>e. (user_a e, user_b e)) ` set (concat (map (group_edges cfg) (groups rows)))"
    by (rule concat_image_mono) (use ga in blast)
  ultimately show ?thesis by (simp only: edges_written_length reduce_rows_groups)
qed


theorem significance_antitone_witness:
  "min_occ default_config \<le> min_occ (default_config\<lparr>min_occ := 3\<rparr>)
   \<and> min_signal_kinds default_config \<le> min_signal_kinds (default_config\<lparr>min_occ := 3\<rparr>)
   \<and> edges_written (reduce_rows (default_config\<lparr>min_occ := 3\<rparr>)
        [(''u0'', ''u2'', ''A_DOM'', 3), (''u0'', ''u2'', ''B_TAG'', 1),
         (''u1'', ''u2'', ''A_DOM'', 2), (''u1'', ''u2'', ''B_TAG'', 2)])
      \<le> edges_written (reduce_rows default_config
        [(''u0'', ''u2'', ''A_DOM'', 3), (''u0'', ''u2'', ''B_TAG'', 1),
         (''u1'', ''u2'', ''A_DOM'', 2), (''u1'', ''u2'', ''B_TAG'', 2)])"
proof -
  have a: "min_occ default_config \<le> min_occ (default_config\<lparr>min_occ := 3\<rparr>)"
    by (simp add: default_config_def)
  have b: "min_signal_kinds default_config \<le> min_signal_kinds (default_config\<lparr>min_occ := 3\<rparr>)"
    by simp
  from significance_antitone[OF a b] a b show ?thesis by blast
qed


lemma in_group_edges_filter:
  assumes "e \<in> set (group_edges cfg ((a, b), filter (\<lambda>r. row_pair r = (a, b)) rows))"
  shows "user_a e = a \<and> user_b e = b \<and> total_occurrences e = pair_total rows a b
       \<and> min_signal_kinds cfg \<le> card (met_signals cfg rows a b)"
proof (cases "min_signal_kinds cfg \<le> card (met_signals cfg rows a b)")
  case True
  with assms show ?thesis by (simp add: group_edges_filter)
next
  case False
  with assms show ?thesis by (simp add: group_edges_filter)
qed

lemma group_edges_filter_nonempty:
  assumes "min_signal_kinds cfg \<le> card (met_signals cfg rows a b)"
  shows "\<exists>e. e \<in> set (group_edges cfg ((a, b), filter (\<lambda>r. row_pair r = (a, b)) rows))"
  using assms by (simp add: group_edges_filter)

lemma met_signals_pair:
  assumes "met_signals cfg rows a b \<noteq> {}"
  shows "(a, b) \<in> row_pair ` set rows"
proof -
  from assms obtain s where "s \<in> seen_signals rows a b" by (auto simp: met_signals_def)
  then obtain cnt where "(a, b, s, cnt) \<in> set rows" by (auto simp: seen_signals_def)
  moreover have "row_pair (a, b, s, cnt) = (a, b)" by (simp add: row_pair_def)
  ultimately show ?thesis by (metis image_eqI)
qed


lemma written_reduce_scan:
  "e \<in> set (written (reduce_rows cfg (scan_pair_signal table))) \<longleftrightarrow>
     (\<exists>a' b'. (a', b') \<in> row_pair ` set (scan_pair_signal table)
        \<and> e \<in> set (group_edges cfg ((a', b'),
                     filter (\<lambda>r. row_pair r = (a', b')) (scan_pair_signal table))))"
proof -
  let ?rows = "scan_pair_signal table"
  have ord: "ordered_rows ?rows" by (rule ordered_scan)
  note gs = groups_sorted[OF ord]
  have gfilter: "\<And>q h. (q, h) \<in> set (groups ?rows) \<Longrightarrow> h = filter (\<lambda>r. row_pair r = q) ?rows"
    using gs by blast
  have gkeys: "fst ` set (groups ?rows) = row_pair ` set ?rows" using gs by blast
  have "e \<in> set (written (reduce_rows cfg ?rows)) \<longleftrightarrow>
        (\<exists>qh \<in> set (groups ?rows). e \<in> set (group_edges cfg qh))"
    by (simp add: reduce_rows_groups)
  also have "\<dots> \<longleftrightarrow> (\<exists>a' b'. (a', b') \<in> row_pair ` set ?rows
                 \<and> e \<in> set (group_edges cfg ((a', b'), filter (\<lambda>r. row_pair r = (a', b')) ?rows)))"
  proof
    assume "\<exists>qh \<in> set (groups ?rows). e \<in> set (group_edges cfg qh)"
    then obtain q h where qh: "(q, h) \<in> set (groups ?rows)" "e \<in> set (group_edges cfg (q, h))"
      by auto
    obtain a' b' where q: "q = (a', b')" by (cases q)
    have hf: "h = filter (\<lambda>r. row_pair r = (a', b')) ?rows" using gfilter[OF qh(1)] q by simp
    have "fst (q, h) \<in> fst ` set (groups ?rows)" using qh(1) by (rule imageI)
    then have "(a', b') \<in> row_pair ` set ?rows" unfolding gkeys q by simp
    moreover have "e \<in> set (group_edges cfg ((a', b'), filter (\<lambda>r. row_pair r = (a', b')) ?rows))"
      using qh(2) unfolding q hf[symmetric] .
    ultimately show "\<exists>a' b'. (a', b') \<in> row_pair ` set ?rows
                 \<and> e \<in> set (group_edges cfg ((a', b'), filter (\<lambda>r. row_pair r = (a', b')) ?rows))"
      by blast
  next
    assume "\<exists>a' b'. (a', b') \<in> row_pair ` set ?rows
                 \<and> e \<in> set (group_edges cfg ((a', b'), filter (\<lambda>r. row_pair r = (a', b')) ?rows))"
    then obtain a' b' where ab: "(a', b') \<in> row_pair ` set ?rows"
        "e \<in> set (group_edges cfg ((a', b'), filter (\<lambda>r. row_pair r = (a', b')) ?rows))" by blast
    from ab(1) have "(a', b') \<in> fst ` set (groups ?rows)" unfolding gkeys .
    then obtain qh where qh: "qh \<in> set (groups ?rows)" "fst qh = (a', b')" by (metis imageE)
    then have "((a', b'), snd qh) \<in> set (groups ?rows)" by (metis prod.collapse)
    then have "snd qh = filter (\<lambda>r. row_pair r = (a', b')) ?rows" by (rule gfilter)
    then have "qh = ((a', b'), filter (\<lambda>r. row_pair r = (a', b')) ?rows)"
      using qh(2) by (metis prod.collapse)
    with qh(1) ab(2) show "\<exists>qh \<in> set (groups ?rows). e \<in> set (group_edges cfg qh)" by blast
  qed
  finally show ?thesis .
qed


text \<open>
  Claim C1. In the reduction of the ordered scan of the \<open>pair_signal\<close> table, with the
  code's minimum of 2 signal kinds, an edge is emitted for a pair of users if and only if
  at least 2 distinct signal kinds have an accumulated count of at least \<open>min_occ\<close>
  for that pair; and the \<open>total_occurrences\<close> of every emitted edge is the sum of the
  counts of all rows of its pair, the kinds below the minimum included.
\<close>

theorem reduction_significance:
  assumes "min_signal_kinds cfg = 2"
  shows "((\<exists>e \<in> set (written (reduce_rows cfg (scan_pair_signal table))). user_a e = a \<and> user_b e = b)
            \<longleftrightarrow> 2 \<le> card (met_signals cfg (scan_pair_signal table) a b))
       \<and> (\<forall>e \<in> set (written (reduce_rows cfg (scan_pair_signal table))).
            total_occurrences e = pair_total (scan_pair_signal table) (user_a e) (user_b e))"
proof -
  let ?rows = "scan_pair_signal table"
  have part1: "(\<exists>e \<in> set (written (reduce_rows cfg ?rows)). user_a e = a \<and> user_b e = b)
            \<longleftrightarrow> 2 \<le> card (met_signals cfg ?rows a b)"
  proof
    assume "\<exists>e \<in> set (written (reduce_rows cfg ?rows)). user_a e = a \<and> user_b e = b"
    then obtain e where e: "e \<in> set (written (reduce_rows cfg ?rows))" "user_a e = a" "user_b e = b"
      by blast
    from e(1) obtain a' b' where
        g: "e \<in> set (group_edges cfg ((a', b'), filter (\<lambda>r. row_pair r = (a', b')) ?rows))"
      unfolding written_reduce_scan by blast
    from in_group_edges_filter[OF g] e(2,3) assms
    show "2 \<le> card (met_signals cfg ?rows a b)" by simp
  next
    assume c: "2 \<le> card (met_signals cfg ?rows a b)"
    then have "card (met_signals cfg ?rows a b) \<noteq> 0" by simp
    then have "met_signals cfg ?rows a b \<noteq> {}" by (metis card.empty)
    then have p: "(a, b) \<in> row_pair ` set ?rows" by (rule met_signals_pair)
    from c assms have "min_signal_kinds cfg \<le> card (met_signals cfg ?rows a b)" by simp
    from group_edges_filter_nonempty[OF this] obtain e where
        g: "e \<in> set (group_edges cfg ((a, b), filter (\<lambda>r. row_pair r = (a, b)) ?rows))" by blast
    have "e \<in> set (written (reduce_rows cfg ?rows))"
      unfolding written_reduce_scan using p g by blast
    moreover have "user_a e = a \<and> user_b e = b" using in_group_edges_filter[OF g] by simp
    ultimately show "\<exists>e \<in> set (written (reduce_rows cfg ?rows)). user_a e = a \<and> user_b e = b"
      by blast
  qed
  have part2: "\<forall>e \<in> set (written (reduce_rows cfg ?rows)).
            total_occurrences e = pair_total ?rows (user_a e) (user_b e)"
  proof
    fix e assume "e \<in> set (written (reduce_rows cfg ?rows))"
    then obtain a' b' where
        g: "e \<in> set (group_edges cfg ((a', b'), filter (\<lambda>r. row_pair r = (a', b')) ?rows))"
      unfolding written_reduce_scan by blast
    from in_group_edges_filter[OF g]
    show "total_occurrences e = pair_total ?rows (user_a e) (user_b e)" by simp
  qed
  from part1 part2 show ?thesis by (rule conjI)
qed

theorem reduction_significance_witness:
  "min_signal_kinds default_config = 2
   \<and> (\<exists>e \<in> set (written (reduce_rows default_config (scan_pair_signal
          [((''u1'',''u2'',''A_DOM''),2), ((''u0'',''u2'',''A_DOM''),3),
           ((''u1'',''u2'',''B_TAG''),2), ((''u0'',''u2'',''B_TAG''),1)]))).
         user_a e = ''u1'' \<and> user_b e = ''u2'' \<and> total_occurrences e = 4)
   \<and> 2 \<le> card (met_signals default_config (scan_pair_signal
          [((''u1'',''u2'',''A_DOM''),2), ((''u0'',''u2'',''A_DOM''),3),
           ((''u1'',''u2'',''B_TAG''),2), ((''u0'',''u2'',''B_TAG''),1)]) ''u1'' ''u2'')"
proof -
  let ?T = "[((''u1'',''u2'',''A_DOM''),2::int), ((''u0'',''u2'',''A_DOM''),3),
           ((''u1'',''u2'',''B_TAG''),2), ((''u0'',''u2'',''B_TAG''),1)]"
  have k: "min_signal_kinds default_config = 2" by (simp add: default_config_def)
  have s: "scan_pair_signal ?T
      = [(''u0'', ''u2'', ''A_DOM'', 3), (''u0'', ''u2'', ''B_TAG'', 1),
         (''u1'', ''u2'', ''A_DOM'', 2), (''u1'', ''u2'', ''B_TAG'', 2)]"
    by (simp add: scan_pair_signal_def pair_le_def row_pair_def)
  have w: "written (reduce_rows default_config (scan_pair_signal ?T))
   = [\<lparr>user_a = ''u1'', user_b = ''u2'', num_signals = 2, total_occurrences = 4,
       signals = [''A_DOM'', ''B_TAG''], signal_counts = [(''A_DOM'', 2), (''B_TAG'', 2)]\<rparr>]"
    unfolding s
    by (simp add: reduce_rows_def reduce_step_def emit_edge_def reduce_init_def default_config_def Let_def)
  have e: "\<exists>e \<in> set (written (reduce_rows default_config (scan_pair_signal ?T))).
         user_a e = ''u1'' \<and> user_b e = ''u2'' \<and> total_occurrences e = 4"
    unfolding w by simp
  then have "\<exists>e \<in> set (written (reduce_rows default_config (scan_pair_signal ?T))).
         user_a e = ''u1'' \<and> user_b e = ''u2''" by blast
  with reduction_significance[OF k, of ?T "''u1''" "''u2''"]
  have "2 \<le> card (met_signals default_config (scan_pair_signal ?T) ''u1'' ''u2'')" by blast
  with k e show ?thesis by blast
qed

section \<open>The passes over the records\<close>

lemma fold_counter_add_get:
  "counter_get (fold (\<lambda>key. counter_add key 1) ks d) k = counter_get d k + int (count_list ks k)"
  by (induction ks arbitrary: d) (simp_all add: counter_get_add)

lemma count_items_fold: "count_items f records = fold (count_step f) records []"
  by (simp add: count_items_def count_step_def[abs_def])

lemma count_step_get:
  "counter_get (count_step f r d) k =
     counter_get d k + (if parse_ts f (published_at r) = None then 0 else int (count_list (extract_items r) k))"
  by (simp add: count_step_def fold_counter_add_get split: option.splits)

lemma fold_count_step_get:
  "counter_get (fold (count_step f) records d) k =
     counter_get d k
     + int (sum_list (map (\<lambda>r. count_list (extract_items r) k)
                          (filter (\<lambda>r. parse_ts f (published_at r) \<noteq> None) records)))"
  by (induction records arbitrary: d) (simp_all add: count_step_get)

lemma count_items_get:
  "counter_get (count_items f records) k =
     int (sum_list (map (\<lambda>r. count_list (extract_items r) k)
                        (filter (\<lambda>r. parse_ts f (published_at r) \<noteq> None) records)))"
proof -
  have "counter_get ([] :: (item \<times> int) list) k = 0" by (simp add: counter_get_def)
  then show ?thesis unfolding count_items_fold fold_count_step_get by (simp only: add_0)
qed

lemma count_list_distinct: "distinct xs \<Longrightarrow> count_list xs x = (if x \<in> set xs then 1 else 0)"
  by (induction xs) auto

lemma sum_count_distinct:
  assumes "\<forall>r \<in> set rs. distinct (g r)"
  shows "sum_list (map (\<lambda>r. count_list (g r) x) rs) = length (filter (\<lambda>r. x \<in> set (g r)) rs)"
  using assms by (induction rs) (simp_all add: count_list_distinct)

text \<open>
  Claim C4, as amended. When every record with a parseable timestamp has a user (so that
  the records counted are the events), the global count of an item is the number of its
  occurrences in the item lists of the events, an item listed several times in one event
  counted each time; it is the number of events containing the item when no event lists an
  item twice.
\<close>

theorem item_count_is_occurrences:
  assumes "\<forall>r \<in> set records. parse_ts f (published_at r) \<noteq> None \<longrightarrow> truthy (author_id r)"
  shows "counter_get (count_items f records) it = int (occurrences_in_events f records it)
       \<and> ((\<forall>r \<in> set records. distinct (extract_items r))
             \<longrightarrow> counter_get (count_items f records) it = int (events_containing f records it))"
proof -
  have ev: "filter (\<lambda>r. parse_ts f (published_at r) \<noteq> None) records = filter (is_event f) records"
    using assms by (intro filter_cong) (auto simp: is_event_def)
  have 1: "counter_get (count_items f records) it = int (occurrences_in_events f records it)"
    unfolding count_items_get ev occurrences_in_events_def ..
  have 2: "counter_get (count_items f records) it = int (events_containing f records it)"
    if d: "\<forall>r \<in> set records. distinct (extract_items r)"
  proof -
    have "\<forall>r \<in> set (filter (is_event f) records). distinct (extract_items r)" using d by simp
    then have "sum_list (map (\<lambda>r. count_list (extract_items r) it) (filter (is_event f) records))
        = length (filter (\<lambda>r. it \<in> set (extract_items r)) (filter (is_event f) records))"
      by (rule sum_count_distinct)
    also have "\<dots> = events_containing f records it"
      by (simp add: events_containing_def conj_commute)
    finally show ?thesis using 1 by (simp add: occurrences_in_events_def)
  qed
  from 1 2 show ?thesis by blast
qed

lemma extract_repeated: "extract_items post_repeated_tag = [(''B_TAG'', ''x''), (''B_TAG'', ''x'')]"
  by (simp add: extract_items_def post_repeated_tag_def empty_post_def add_items_def add_opt_def
        py_or_def truthy_def)

lemma parse_example: "parse_ts iso_example (Some ''2024-01-01T00:00:00Z'') = Some 1704067200"
  by (simp add: parse_ts_def replace_Z_def iso_example_def)

text \<open>
  Claim C4 as stated fails: one event that lists the hashtag \<open>x\<close> twice gives the
  item the count 2, and one event contains it.
\<close>

theorem repeated_item_counterexample:
  "counter_get (count_items iso_example [post_repeated_tag]) (''B_TAG'', ''x'') = 2
   \<and> events_containing iso_example [post_repeated_tag] (''B_TAG'', ''x'') = 1"
proof -
  have p: "published_at post_repeated_tag = Some ''2024-01-01T00:00:00Z''"
    and a: "author_id post_repeated_tag = Some ''u1''"
    by (simp_all add: post_repeated_tag_def empty_post_def)
  have "count_items iso_example [post_repeated_tag] = [((''B_TAG'', ''x''), 2)]"
    by (simp add: count_items_def p parse_example extract_repeated)
  moreover have "events_containing iso_example [post_repeated_tag] (''B_TAG'', ''x'') = 1"
    by (simp add: events_containing_def is_event_def p a parse_example extract_repeated truthy_def)
  ultimately show ?thesis by (simp add: counter_get_def)
qed

text \<open>
  Claim C6 fails on the code for a record with a timestamp and no user: pass 2 and pass 3b
  skip it, pass 1 counts its items.
\<close>

theorem userless_record_counted:
  "count_items iso_example [post_without_user] = [((''B_TAG'', ''x''), 1)]
   \<and> \<not> truthy (author_id post_without_user)
   \<and> bucketize default_config iso_example {(''B_TAG'', ''x'')} [post_without_user] = []
   \<and> user_item_rows iso_example {(''B_TAG'', ''x'')} [post_without_user] = []"
proof -
  have p: "published_at post_without_user = Some ''2024-01-01T00:00:00Z''"
    and a: "author_id post_without_user = None"
    by (simp_all add: post_without_user_def empty_post_def)
  have e: "extract_items post_without_user = [(''B_TAG'', ''x'')]"
    by (simp add: extract_items_def post_without_user_def empty_post_def add_items_def add_opt_def
        py_or_def truthy_def)
  show ?thesis
    by (simp add: count_items_def bucketize_def bucketize_step_def user_item_rows_def p a e
          parse_example truthy_def)
qed


theorem item_count_is_occurrences_witness:
  "parse_ts iso_example (published_at post_two_tags) \<noteq> None
   \<and> truthy (author_id post_two_tags)
   \<and> distinct (extract_items post_two_tags)
   \<and> counter_get (count_items iso_example [post_two_tags]) (''B_TAG'', ''x'')
       = int (occurrences_in_events iso_example [post_two_tags] (''B_TAG'', ''x''))
   \<and> counter_get (count_items iso_example [post_two_tags]) (''B_TAG'', ''x'')
       = int (events_containing iso_example [post_two_tags] (''B_TAG'', ''x''))"
proof -
  have p: "parse_ts iso_example (published_at post_two_tags) \<noteq> None"
    by (simp add: post_two_tags_def empty_post_def parse_example)
  have a: "truthy (author_id post_two_tags)"
    by (simp add: post_two_tags_def empty_post_def truthy_def)
  have e: "extract_items post_two_tags = [(''B_TAG'', ''x''), (''B_TAG'', ''y'')]"
    by (simp add: extract_items_def post_two_tags_def empty_post_def add_items_def add_opt_def
        py_or_def truthy_def)
  have d1: "distinct (extract_items post_two_tags)" by (simp add: e)
  have h: "\<forall>r \<in> set [post_two_tags]. parse_ts iso_example (published_at r) \<noteq> None \<longrightarrow> truthy (author_id r)"
    by (simp add: a)
  have d: "\<forall>r \<in> set [post_two_tags]. distinct (extract_items r)"
    by (simp add: d1)
  from item_count_is_occurrences[OF h, of "(''B_TAG'', ''x'')"] d p a d1 show ?thesis by blast
qed

lemma to_bip_item_Some:
  assumes "to_bip_item signal v = Some item_id"
  shows "v \<noteq> [] \<and>
     ((signal = ''A_DOM'' \<and> item_id = ''DOM:'' @ v) \<or>
      (signal = ''D_RETWEET'' \<and> item_id = ''RT:'' @ v) \<or>
      (signal = ''E_CONV'' \<and> item_id = ''CONV:'' @ v) \<or>
      (signal = ''C_MENT'' \<and> item_id = ''MENT:@'' @ v) \<or>
      (signal = ''B_TAG'' \<and> item_id = ''TAG:#'' @ v))"
  using assms unfolding to_bip_item_def by (auto split: if_splits)

lemma in_concat_map: "x \<in> set (concat (map g xs)) \<Longrightarrow> \<exists>y \<in> set xs. x \<in> set (g y)"
  by auto

lemma user_item_rows_origin:
  assumes "((user, item_id), cnt) \<in> set (user_item_rows f kept records)"
  shows "\<exists>r signal v. r \<in> set records \<and> (signal, v) \<in> set (extract_items r) \<and> (signal, v) \<in> kept
            \<and> author_id r = Some user \<and> to_bip_item signal v = Some item_id"
proof -
  from assms obtain r where r: "r \<in> set records"
    and m: "((user, item_id), cnt) \<in> set (case parse_ts f (published_at r) of
         None \<Rightarrow> []
       | Some ts \<Rightarrow>
           (case author_id r of
              None \<Rightarrow> []
            | Some user \<Rightarrow>
                if user = [] then []
                else concat (map (\<lambda>(signal, v).
                       if (signal, v) \<notin> kept then []
                       else (case to_bip_item signal v of
                               None \<Rightarrow> []
                             | Some item_id \<Rightarrow>
                                 if item_id = [] then [] else [((user, item_id), 1)]))
                     (extract_items r))))"
    unfolding user_item_rows_def by auto
  obtain ts where ts: "parse_ts f (published_at r) = Some ts"
    using m by (cases "parse_ts f (published_at r)") simp_all
  obtain u where u: "author_id r = Some u"
    using m unfolding ts by (cases "author_id r") simp_all
  have un: "u \<noteq> []" using m unfolding ts u by (cases "u = []") simp_all
  have m2: "((user, item_id), cnt) \<in> set (concat (map (\<lambda>(signal, v).
                       if (signal, v) \<notin> kept then []
                       else (case to_bip_item signal v of
                               None \<Rightarrow> []
                             | Some item_id \<Rightarrow>
                                 if item_id = [] then [] else [((u, item_id), 1)]))
                     (extract_items r)))"
    using m un unfolding ts u by simp
  from in_concat_map[OF m2] obtain sv where sv0: "sv \<in> set (extract_items r)"
    and m3: "((user, item_id), cnt) \<in> set ((\<lambda>(signal, v).
                       if (signal, v) \<notin> kept then []
                       else (case to_bip_item signal v of
                               None \<Rightarrow> []
                             | Some item_id \<Rightarrow>
                                 if item_id = [] then [] else [((u, item_id), 1)])) sv)"
    by blast
  obtain signal v where svd: "sv = (signal, v)" by (cases sv)
  have sv: "(signal, v) \<in> set (extract_items r)" using sv0 svd by simp
  have m4: "((user, item_id), cnt) \<in> set (if (signal, v) \<notin> kept then []
                       else (case to_bip_item signal v of
                               None \<Rightarrow> []
                             | Some item_id \<Rightarrow>
                                 if item_id = [] then [] else [((u, item_id), 1)]))"
    using m3 unfolding svd by simp
  have k: "(signal, v) \<in> kept" using m4 by (cases "(signal, v) \<in> kept") simp_all
  obtain i where i: "to_bip_item signal v = Some i"
    using m4 k by (cases "to_bip_item signal v") simp_all
  have "i \<noteq> []" using m4 k i by (cases "i = []") simp_all
  then have "(user, item_id) = (u, i)" using m4 k i by simp
  then have "(signal, v) \<in> kept" "to_bip_item signal v = Some item_id" "u = user"
    using k i by simp_all
  with r sv u show ?thesis by blast
qed


lemma add_edge_keys:
  "(\<lambda>e. (fst e, fst (snd e))) ` set (add_edge u v x g)
     \<subseteq> insert (u, v) ((\<lambda>e. (fst e, fst (snd e))) ` set g)"
proof (induction g)
  case Nil
  show ?case by simp
next
  case (Cons e g)
  obtain a b y where e: "e = (a, b, y)" by (cases e)
  show ?case
  proof (cases "(a = u \<and> b = v) \<or> (a = v \<and> b = u)")
    case True
    then have "add_edge u v x (e # g) = (a, b, x) # g" unfolding e by simp
    then show ?thesis unfolding e by auto
  next
    case False
    then have "add_edge u v x (e # g) = e # add_edge u v x g" unfolding e by auto
    then show ?thesis using Cons.IH by auto
  qed
qed

lemma fold_add_edge_keys:
  "(\<lambda>e. (fst e, fst (snd e))) ` set (fold (\<lambda>((u, i), c) B. add_edge u i c B) rows B)
     \<subseteq> (\<lambda>e. (fst e, fst (snd e))) ` set B \<union> fst ` set rows"
proof (induction rows arbitrary: B)
  case Nil
  show ?case by simp
next
  case (Cons r rows)
  obtain u i c where r: "r = ((u, i), c)" by (cases r) auto
  have "(\<lambda>e. (fst e, fst (snd e))) ` set (fold (\<lambda>((u, i), c) B. add_edge u i c B) rows (add_edge u i c B))
     \<subseteq> (\<lambda>e. (fst e, fst (snd e))) ` set (add_edge u i c B) \<union> fst ` set rows"
    by (rule Cons.IH)
  also have "\<dots> \<subseteq> insert (u, i) ((\<lambda>e. (fst e, fst (snd e))) ` set B) \<union> fst ` set rows"
    using add_edge_keys[of u i c B] by blast
  finally show ?case unfolding r by auto
qed

lemma set_select_user_item: "set (select_user_item cfg t) \<subseteq> set t"
proof -
  have "set (take n (sorted_desc snd t)) \<subseteq> set t" for n
    using set_take_subset[of n "sorted_desc snd t"] by (simp add: sorted_desc_def)
  then show ?thesis by (simp add: select_user_item_def)
qed

lemma bipartite_edges_from_table:
  assumes "e \<in> set (build_bipartite cfg t)"
  shows "(fst e, fst (snd e)) \<in> fst ` set t"
proof -
  have "(fst e, fst (snd e)) \<in> (\<lambda>e. (fst e, fst (snd e))) ` set (build_bipartite cfg t)"
    using assms by (rule imageI)
  moreover have "(\<lambda>e. (fst e, fst (snd e))) ` set (build_bipartite cfg t)
      \<subseteq> fst ` set (select_user_item cfg t)"
    unfolding build_bipartite_def using fold_add_edge_keys[of "select_user_item cfg t" "[]"] by simp
  ultimately have "(fst e, fst (snd e)) \<in> fst ` set (select_user_item cfg t)" by blast
  then show ?thesis using set_select_user_item[of cfg t] by blast
qed

lemma no_timestamp_dropped:
  assumes "parse_ts f (published_at r) = None"
  shows "count_items f (xs @ r # ys) = count_items f (xs @ ys)
       \<and> bucketize cfg f kept (xs @ r # ys) = bucketize cfg f kept (xs @ ys)
       \<and> user_item_rows f kept (xs @ r # ys) = user_item_rows f kept (xs @ ys)"
  using assms
  by (simp add: count_items_fold count_step_def bucketize_def bucketize_step_def user_item_rows_def)

lemma no_user_dropped:
  assumes "\<not> truthy (author_id r)"
  shows "bucketize cfg f kept (xs @ r # ys) = bucketize cfg f kept (xs @ ys)
       \<and> user_item_rows f kept (xs @ r # ys) = user_item_rows f kept (xs @ ys)"
  using assms
  by (auto simp: bucketize_def bucketize_step_def user_item_rows_def truthy_def split: option.splits)


lemma user_item_key_kind:
  assumes "(u, i) \<in> fst ` set (user_item_table f kept records)"
  shows "\<exists>signal v. (signal, v) \<in> kept
        \<and> to_bip_item signal v = Some i
        \<and> ((signal = ''A_DOM'' \<and> i = ''DOM:'' @ v) \<or>
            (signal = ''D_RETWEET'' \<and> i = ''RT:'' @ v) \<or>
            (signal = ''E_CONV'' \<and> i = ''CONV:'' @ v) \<or>
            (signal = ''C_MENT'' \<and> i = ''MENT:@'' @ v) \<or>
            (signal = ''B_TAG'' \<and> i = ''TAG:#'' @ v))"
proof -
  from assms have "(u, i) \<in> fst ` set (user_item_rows f kept records)"
    unfolding user_item_table_def upsert_all_keys by simp
  then obtain cnt where "((u, i), cnt) \<in> set (user_item_rows f kept records)" by force
  from user_item_rows_origin[OF this] obtain signal v where
    k: "(signal, v) \<in> kept" and t: "to_bip_item signal v = Some i" by blast
  have d: "(signal = ''A_DOM'' \<and> i = ''DOM:'' @ v) \<or>
            (signal = ''D_RETWEET'' \<and> i = ''RT:'' @ v) \<or>
            (signal = ''E_CONV'' \<and> i = ''CONV:'' @ v) \<or>
            (signal = ''C_MENT'' \<and> i = ''MENT:@'' @ v) \<or>
            (signal = ''B_TAG'' \<and> i = ''TAG:#'' @ v)"
    using to_bip_item_Some[OF t] by (rule conjunct2)
  show ?thesis
    by (rule exI[of _ signal], rule exI[of _ v], intro conjI, rule k, rule t, rule d)
qed

text \<open>
  Claim C10. Every entry of the \<open>user_item\<close> table, and every edge of the bipartite
  graph built from it, has an item identifier made by \<open>to_bip_item\<close> from a kept item
  of kind domain, retweet target, conversation, mention or hashtag; items of kind URL,
  quote target and reply target give no identifier, whatever their frequency.
\<close>

theorem user_item_kinds:
  "(\<forall>entry \<in> set (user_item_table f kept records).
      \<exists>signal v. (signal, v) \<in> kept
        \<and> to_bip_item signal v = Some (snd (fst entry))
        \<and> ((signal = ''A_DOM'' \<and> snd (fst entry) = ''DOM:'' @ v) \<or>
            (signal = ''D_RETWEET'' \<and> snd (fst entry) = ''RT:'' @ v) \<or>
            (signal = ''E_CONV'' \<and> snd (fst entry) = ''CONV:'' @ v) \<or>
            (signal = ''C_MENT'' \<and> snd (fst entry) = ''MENT:@'' @ v) \<or>
            (signal = ''B_TAG'' \<and> snd (fst entry) = ''TAG:#'' @ v)))
   \<and> (\<forall>e \<in> set (build_bipartite cfg (user_item_table f kept records)).
      \<exists>signal v. (signal, v) \<in> kept
        \<and> to_bip_item signal v = Some (fst (snd e))
        \<and> ((signal = ''A_DOM'' \<and> fst (snd e) = ''DOM:'' @ v) \<or>
            (signal = ''D_RETWEET'' \<and> fst (snd e) = ''RT:'' @ v) \<or>
            (signal = ''E_CONV'' \<and> fst (snd e) = ''CONV:'' @ v) \<or>
            (signal = ''C_MENT'' \<and> fst (snd e) = ''MENT:@'' @ v) \<or>
            (signal = ''B_TAG'' \<and> fst (snd e) = ''TAG:#'' @ v)))
   \<and> to_bip_item ''A_URL'' v' = None
   \<and> to_bip_item ''D_QUOTE'' v' = None
   \<and> to_bip_item ''E_REPLY'' v' = None"
proof (intro conjI ballI)
  fix entry assume "entry \<in> set (user_item_table f kept records)"
  then have "fst entry \<in> fst ` set (user_item_table f kept records)" by (rule imageI)
  then have "(fst (fst entry), snd (fst entry)) \<in> fst ` set (user_item_table f kept records)"
    by simp
  then show "\<exists>signal v. (signal, v) \<in> kept
        \<and> to_bip_item signal v = Some (snd (fst entry))
        \<and> ((signal = ''A_DOM'' \<and> snd (fst entry) = ''DOM:'' @ v) \<or>
            (signal = ''D_RETWEET'' \<and> snd (fst entry) = ''RT:'' @ v) \<or>
            (signal = ''E_CONV'' \<and> snd (fst entry) = ''CONV:'' @ v) \<or>
            (signal = ''C_MENT'' \<and> snd (fst entry) = ''MENT:@'' @ v) \<or>
            (signal = ''B_TAG'' \<and> snd (fst entry) = ''TAG:#'' @ v))"
    by (rule user_item_key_kind)
next
  fix e assume "e \<in> set (build_bipartite cfg (user_item_table f kept records))"
  then have "(fst e, fst (snd e)) \<in> fst ` set (user_item_table f kept records)"
    by (rule bipartite_edges_from_table)
  then show "\<exists>signal v. (signal, v) \<in> kept
        \<and> to_bip_item signal v = Some (fst (snd e))
        \<and> ((signal = ''A_DOM'' \<and> fst (snd e) = ''DOM:'' @ v) \<or>
            (signal = ''D_RETWEET'' \<and> fst (snd e) = ''RT:'' @ v) \<or>
            (signal = ''E_CONV'' \<and> fst (snd e) = ''CONV:'' @ v) \<or>
            (signal = ''C_MENT'' \<and> fst (snd e) = ''MENT:@'' @ v) \<or>
            (signal = ''B_TAG'' \<and> fst (snd e) = ''TAG:#'' @ v))"
    by (rule user_item_key_kind)
next
  show "to_bip_item ''A_URL'' v' = None" by (simp add: to_bip_item_def)
  show "to_bip_item ''D_QUOTE'' v' = None" by (simp add: to_bip_item_def)
  show "to_bip_item ''E_REPLY'' v' = None" by (simp add: to_bip_item_def)
qed


theorem user_item_kinds_witness:
  "((''u1'', ''TAG:#x''), 1) \<in> set (user_item_table iso_example {(''B_TAG'', ''x'')} [post_two_tags])
   \<and> (\<exists>signal v. (signal, v) \<in> {(''B_TAG'', ''x'')}
        \<and> to_bip_item signal v = Some (snd (fst ((''u1'', ''TAG:#x''), 1::int)))
        \<and> ((signal = ''A_DOM'' \<and> snd (fst ((''u1'', ''TAG:#x''), 1::int)) = ''DOM:'' @ v) \<or>
            (signal = ''D_RETWEET'' \<and> snd (fst ((''u1'', ''TAG:#x''), 1::int)) = ''RT:'' @ v) \<or>
            (signal = ''E_CONV'' \<and> snd (fst ((''u1'', ''TAG:#x''), 1::int)) = ''CONV:'' @ v) \<or>
            (signal = ''C_MENT'' \<and> snd (fst ((''u1'', ''TAG:#x''), 1::int)) = ''MENT:@'' @ v) \<or>
            (signal = ''B_TAG'' \<and> snd (fst ((''u1'', ''TAG:#x''), 1::int)) = ''TAG:#'' @ v)))
   \<and> (''u1'', ''TAG:#x'', 1)
        \<in> set (build_bipartite default_config
                  (user_item_table iso_example {(''B_TAG'', ''x'')} [post_two_tags]))
   \<and> (\<exists>signal v. (signal, v) \<in> {(''B_TAG'', ''x'')}
        \<and> to_bip_item signal v = Some (fst (snd (''u1'', ''TAG:#x'', 1::int)))
        \<and> ((signal = ''A_DOM'' \<and> fst (snd (''u1'', ''TAG:#x'', 1::int)) = ''DOM:'' @ v) \<or>
            (signal = ''D_RETWEET'' \<and> fst (snd (''u1'', ''TAG:#x'', 1::int)) = ''RT:'' @ v) \<or>
            (signal = ''E_CONV'' \<and> fst (snd (''u1'', ''TAG:#x'', 1::int)) = ''CONV:'' @ v) \<or>
            (signal = ''C_MENT'' \<and> fst (snd (''u1'', ''TAG:#x'', 1::int)) = ''MENT:@'' @ v) \<or>
            (signal = ''B_TAG'' \<and> fst (snd (''u1'', ''TAG:#x'', 1::int)) = ''TAG:#'' @ v)))"
proof -
  have p: "published_at post_two_tags = Some ''2024-01-01T00:00:00Z''"
    and a: "author_id post_two_tags = Some ''u1''"
    by (simp_all add: post_two_tags_def empty_post_def)
  have e: "extract_items post_two_tags = [(''B_TAG'', ''x''), (''B_TAG'', ''y'')]"
    by (simp add: extract_items_def post_two_tags_def empty_post_def add_items_def add_opt_def
        py_or_def truthy_def)
  have t: "user_item_table iso_example {(''B_TAG'', ''x'')} [post_two_tags] = [((''u1'', ''TAG:#x''), 1)]"
    by (simp add: user_item_table_def user_item_rows_def upsert_all_def p a e parse_example
          to_bip_item_def)
  have m: "((''u1'', ''TAG:#x''), 1) \<in> set (user_item_table iso_example {(''B_TAG'', ''x'')} [post_two_tags])"
    unfolding t by simp
  have b: "(''u1'', ''TAG:#x'', 1)
        \<in> set (build_bipartite default_config
                  (user_item_table iso_example {(''B_TAG'', ''x'')} [post_two_tags]))"
    unfolding t by (simp add: build_bipartite_def select_user_item_def default_config_def)
  note th = user_item_kinds[of iso_example "{(''B_TAG'', ''x'')}" "[post_two_tags]" default_config "[]"]
  note all1 = conjunct1[OF th]
  note all2 = conjunct1[OF conjunct2[OF th]]
  show ?thesis
    by (rule conjI[OF m conjI[OF bspec[OF all1 m] conjI[OF b bspec[OF all2 b]]]])
qed


section \<open>The count map of a bucket\<close>

lemma fold_fold_concat: "fold (\<lambda>x. fold f (g x)) xs a = fold f (concat (map g xs)) a"
  by (induction xs arbitrary: a) simp_all

lemma bucket_counts_of_concat:
  "bucket_counts_of cfg items = fold (\<lambda>k. counter_add k 1) (concat (map (item_pairs cfg) items)) []"
  unfolding bucket_counts_of_def by (rule fold_fold_concat)

lemma counter_add_total: "sum_list (map snd (counter_add k n d)) = sum_list (map snd d) + n"
  by (induction d) auto

lemma fold_counter_add_total:
  "sum_list (map snd (fold (\<lambda>k. counter_add k 1) ks d)) = sum_list (map snd d) + int (length ks)"
  by (induction ks arbitrary: d) (simp_all add: counter_add_total)

lemma counter_add_fresh: "k \<notin> fst ` set d \<Longrightarrow> counter_add k n d = d @ [(k, n)]"
  by (induction d) auto

lemma fold_counter_add_fresh:
  assumes "distinct ks" "set ks \<inter> fst ` set d = {}"
  shows "fold (\<lambda>k. counter_add k 1) ks d = d @ map (\<lambda>k. (k, 1)) ks"
  using assms
proof (induction ks arbitrary: d)
  case Nil
  show ?case by simp
next
  case (Cons k ks)
  have f: "k \<notin> fst ` set d" using Cons.prems(2) by auto
  have e: "counter_add k 1 d = d @ [(k, 1)]" using f by (rule counter_add_fresh)
  have d: "distinct ks" using Cons.prems(1) by simp
  have i: "set ks \<inter> fst ` set (d @ [(k, 1)]) = {}" using Cons.prems by auto
  show ?case using Cons.IH[OF d i] by (simp add: e)
qed

lemma bucket_counts_get:
  "counter_get (bucket_counts_of cfg items) key
     = int (count_list (concat (map (item_pairs cfg) items)) key)"
proof -
  have "counter_get ([] :: (pair_key \<times> int) list) key = 0" by (simp add: counter_get_def)
  then show ?thesis unfolding bucket_counts_of_concat fold_counter_add_get by simp
qed

lemma bucket_counts_total:
  "sum_list (map snd (bucket_counts_of cfg items))
     = int (length (concat (map (item_pairs cfg) items)))"
  unfolding bucket_counts_of_concat fold_counter_add_total by simp

lemma count_list_append: "count_list (xs @ ys) x = count_list xs x + count_list ys x"
  by (induction xs) simp_all

text \<open>
  Claim C2.  Take any bucket and any item of it whose set of distinct users has size \<open>k\<close> with
  \<open>2 \<le> k \<le> max_users_per_item\<close>.  Run on that item alone, the pair loop of the aggregator
  (lines 182-192) produces the count map that holds every key of \<open>item_pairs\<close> once with count
  1; these keys are \<open>k * (k - 1) / 2\<close> in number, pairwise different, and they are exactly the
  triples \<open>(a, b, signal)\<close> with \<open>a\<close> and \<open>b\<close> users of the item, \<open>a < b\<close>, and
  \<open>signal\<close> the item's own kind.  Within the whole bucket the item raises the sum of the
  counts of \<open>bucket_counts\<close> by \<open>k * (k - 1) / 2\<close> over what the other items of the bucket
  give, and it raises the count of each of those triples by one and of no other key.
\<close>

theorem pair_increments_per_item:
  assumes "item_users_of lines = xs @ ((signal, v), users) # ys"
    and "2 \<le> length users" and "length users \<le> max_users_per_item cfg"
  shows "bucket_counts_of cfg [((signal, v), users)]
           = map (\<lambda>key. (key, 1)) (item_pairs cfg ((signal, v), users))
       \<and> length (item_pairs cfg ((signal, v), users)) = length users * (length users - 1) div 2
       \<and> distinct (item_pairs cfg ((signal, v), users))
       \<and> set (item_pairs cfg ((signal, v), users))
           = {(a, b, signal) | a b. a \<in> set users \<and> b \<in> set users \<and> a < b}
       \<and> sum_list (map snd (bucket_counts_of cfg (item_users_of lines)))
           = sum_list (map snd (bucket_counts_of cfg (xs @ ys)))
             + int (length users * (length users - 1) div 2)
       \<and> (\<forall>key. counter_get (bucket_counts_of cfg (item_users_of lines)) key
             = counter_get (bucket_counts_of cfg (xs @ ys)) key
               + (if key \<in> {(a, b, signal) | a b. a \<in> set users \<and> b \<in> set users \<and> a < b}
                  then 1 else 0))"
proof -
  let ?item = "((signal, v), users)"
  have m: "?item \<in> set (item_users_of lines)" unfolding assms(1) by simp
  note sh = item_pairs_shape[OF m assms(2,3)]
  have len: "length (item_pairs cfg ?item) = length users * (length users - 1) div 2"
    and dist: "distinct (item_pairs cfg ?item)"
    and st: "set (item_pairs cfg ?item)
           = {(a, b, signal) | a b. a \<in> set users \<and> b \<in> set users \<and> a < b}"
    using sh by blast+
  have one: "bucket_counts_of cfg [?item] = map (\<lambda>key. (key, 1)) (item_pairs cfg ?item)"
    unfolding bucket_counts_of_concat using fold_counter_add_fresh[OF dist, of "[]"] by simp
  have tot: "sum_list (map snd (bucket_counts_of cfg (item_users_of lines)))
           = sum_list (map snd (bucket_counts_of cfg (xs @ ys)))
             + int (length users * (length users - 1) div 2)"
    unfolding bucket_counts_total assms(1) using len by simp
  have cl: "count_list (item_pairs cfg ?item) key = (if key \<in> set (item_pairs cfg ?item) then 1 else 0)"
    for key using dist by (rule count_list_distinct)
  have get: "counter_get (bucket_counts_of cfg (item_users_of lines)) key
             = counter_get (bucket_counts_of cfg (xs @ ys)) key
               + (if key \<in> {(a, b, signal) | a b. a \<in> set users \<and> b \<in> set users \<and> a < b}
                  then 1 else 0)" for key
    unfolding bucket_counts_get assms(1) st[symmetric]
    by (simp add: count_list_append cl)
  from one len dist st tot get show ?thesis by blast
qed

theorem pair_increments_per_item_witness:
  "item_users_of [(''B_TAG'', ''p'', ''u1''), (''B_TAG'', ''p'', ''u2''), (''A_DOM'', ''x'', ''u2''),
                  (''A_DOM'', ''x'', ''u1''), (''A_DOM'', ''x'', ''u3'')]
     = [((''B_TAG'', ''p''), [''u2'', ''u1''])] @ ((''A_DOM'', ''x''), [''u3'', ''u1'', ''u2'']) # []
   \<and> 2 \<le> length [''u3'', ''u1'', ''u2'']
   \<and> length [''u3'', ''u1'', ''u2''] \<le> max_users_per_item default_config
   \<and> bucket_counts_of default_config [((''A_DOM'', ''x''), [''u3'', ''u1'', ''u2''])]
       = [((''u1'', ''u2'', ''A_DOM''), 1), ((''u1'', ''u3'', ''A_DOM''), 1), ((''u2'', ''u3'', ''A_DOM''), 1)]
   \<and> sum_list (map snd (bucket_counts_of default_config
          (item_users_of [(''B_TAG'', ''p'', ''u1''), (''B_TAG'', ''p'', ''u2''), (''A_DOM'', ''x'', ''u2''),
                          (''A_DOM'', ''x'', ''u1''), (''A_DOM'', ''x'', ''u3'')])))
       = sum_list (map snd (bucket_counts_of default_config ([((''B_TAG'', ''p''), [''u2'', ''u1''])] @ [])))
         + int (length [''u3'', ''u1'', ''u2''] * (length [''u3'', ''u1'', ''u2''] - 1) div 2)"
proof -
  let ?L = "[(''B_TAG'', ''p'', ''u1''), (''B_TAG'', ''p'', ''u2''), (''A_DOM'', ''x'', ''u2''),
             (''A_DOM'', ''x'', ''u1''), (''A_DOM'', ''x'', ''u3'')]"
  have i: "item_users_of ?L
     = [((''B_TAG'', ''p''), [''u2'', ''u1''])] @ ((''A_DOM'', ''x''), [''u3'', ''u1'', ''u2'']) # []"
    by (simp add: item_users_of_def)
  have a: "2 \<le> length [''u3'', ''u1'', ''u2'']" by simp
  have b: "length [''u3'', ''u1'', ''u2''] \<le> max_users_per_item default_config"
    by (simp add: default_config_def)
  have e: "item_pairs default_config ((''A_DOM'', ''x''), [''u3'', ''u1'', ''u2''])
      = [(''u1'', ''u2'', ''A_DOM''), (''u1'', ''u3'', ''A_DOM''), (''u2'', ''u3'', ''A_DOM'')]"
    by (simp add: item_pairs_def default_config_def Let_def upt_rec)
  note t = pair_increments_per_item[OF i a b]
  have c1: "bucket_counts_of default_config [((''A_DOM'', ''x''), [''u3'', ''u1'', ''u2''])]
       = [((''u1'', ''u2'', ''A_DOM''), 1), ((''u1'', ''u3'', ''A_DOM''), 1), ((''u2'', ''u3'', ''A_DOM''), 1)]"
    using conjunct1[OF t] unfolding e by simp
  have c2: "sum_list (map snd (bucket_counts_of default_config (item_users_of ?L)))
       = sum_list (map snd (bucket_counts_of default_config ([((''B_TAG'', ''p''), [''u2'', ''u1''])] @ [])))
         + int (length [''u3'', ''u1'', ''u2''] * (length [''u3'', ''u1'', ''u2''] - 1) div 2)"
    using t by (elim conjE)
  show ?thesis by (intro conjI) (rule i, rule a, rule b, rule c1, rule c2)
qed

text \<open>
  Claim C3.  An item of a bucket whose set of distinct users is larger than
  \<open>max_users_per_item\<close> (or smaller than 2) adds nothing to the count map of the bucket:
  \<open>bucket_counts\<close> is the same with the item as without it, so no key is created and no count
  raised.  The tops loop (lines 174-181) does not look at the cap: when the item has strictly
  more distinct users than every other item of the bucket, it is the \<open>top_item\<close> of the bucket
  and its kind is the \<open>top_signal\<close>.
\<close>

theorem capped_item_contributes_nothing:
  assumes "item_users_of lines = xs @ ((signal, v), users) # ys"
    and "length users < 2 \<or> max_users_per_item cfg < length users"
  shows "bucket_counts_of cfg (item_users_of lines) = bucket_counts_of cfg (xs @ ys)
       \<and> ((\<forall>iu \<in> set (item_users_of lines). iu \<noteq> ((signal, v), users) \<longrightarrow> length (snd iu) < length users)
            \<longrightarrow> stat_top_item (bucket_stat_of cfg lines) = signal @ '':'' @ v
              \<and> stat_top_signal (bucket_stat_of cfg lines) = signal)"
proof -
  have m: "((signal, v), users) \<in> set (item_users_of lines)" unfolding assms(1) by simp
  have e: "item_pairs cfg ((signal, v), users) = []"
    using capped_item_top[OF m assms(2)] by (rule conjunct1)
  have 1: "bucket_counts_of cfg (item_users_of lines) = bucket_counts_of cfg (xs @ ys)"
    unfolding assms(1) bucket_counts_of_def by (simp add: e)
  have 2: "(\<forall>iu \<in> set (item_users_of lines). iu \<noteq> ((signal, v), users) \<longrightarrow> length (snd iu) < length users)
            \<longrightarrow> stat_top_item (bucket_stat_of cfg lines) = signal @ '':'' @ v
              \<and> stat_top_signal (bucket_stat_of cfg lines) = signal"
    using capped_item_top[OF m assms(2)] by (rule conjunct2)
  from 1 2 show ?thesis by (rule conjI)
qed

theorem capped_item_contributes_nothing_witness:
  "item_users_of [(''A_DOM'', ''x'', ''u1''), (''A_DOM'', ''x'', ''u2''), (''A_DOM'', ''x'', ''u3''),
                  (''B_TAG'', ''p'', ''u1''), (''B_TAG'', ''p'', ''u2'')]
     = [] @ ((''A_DOM'', ''x''), [''u3'', ''u2'', ''u1'']) # [((''B_TAG'', ''p''), [''u2'', ''u1''])]
   \<and> max_users_per_item (default_config\<lparr>max_users_per_item := 2\<rparr>) < length [''u3'', ''u2'', ''u1'']
   \<and> bucket_counts_of (default_config\<lparr>max_users_per_item := 2\<rparr>)
        (item_users_of [(''A_DOM'', ''x'', ''u1''), (''A_DOM'', ''x'', ''u2''), (''A_DOM'', ''x'', ''u3''),
                        (''B_TAG'', ''p'', ''u1''), (''B_TAG'', ''p'', ''u2'')])
       = [((''u1'', ''u2'', ''B_TAG''), 1)]
   \<and> stat_top_item (bucket_stat_of (default_config\<lparr>max_users_per_item := 2\<rparr>)
         [(''A_DOM'', ''x'', ''u1''), (''A_DOM'', ''x'', ''u2''), (''A_DOM'', ''x'', ''u3''),
          (''B_TAG'', ''p'', ''u1''), (''B_TAG'', ''p'', ''u2'')]) = ''A_DOM:x''
   \<and> stat_top_signal (bucket_stat_of (default_config\<lparr>max_users_per_item := 2\<rparr>)
         [(''A_DOM'', ''x'', ''u1''), (''A_DOM'', ''x'', ''u2''), (''A_DOM'', ''x'', ''u3''),
          (''B_TAG'', ''p'', ''u1''), (''B_TAG'', ''p'', ''u2'')]) = ''A_DOM''"
proof -
  let ?L = "[(''A_DOM'', ''x'', ''u1''), (''A_DOM'', ''x'', ''u2''), (''A_DOM'', ''x'', ''u3''),
             (''B_TAG'', ''p'', ''u1''), (''B_TAG'', ''p'', ''u2'')]"
  let ?cfg = "default_config\<lparr>max_users_per_item := 2\<rparr>"
  have i: "item_users_of ?L
      = [] @ ((''A_DOM'', ''x''), [''u3'', ''u2'', ''u1'']) # [((''B_TAG'', ''p''), [''u2'', ''u1''])]"
    by (simp add: item_users_of_def)
  have c: "max_users_per_item ?cfg < length [''u3'', ''u2'', ''u1'']" by simp
  then have c': "length [''u3'', ''u2'', ''u1''] < 2 \<or> max_users_per_item ?cfg < length [''u3'', ''u2'', ''u1'']"
    by simp
  have most: "\<forall>iu \<in> set (item_users_of ?L).
      iu \<noteq> ((''A_DOM'', ''x''), [''u3'', ''u2'', ''u1'']) \<longrightarrow> length (snd iu) < length [''u3'', ''u2'', ''u1'']"
    unfolding i by simp
  have rest: "bucket_counts_of ?cfg ([] @ [((''B_TAG'', ''p''), [''u2'', ''u1''])])
      = [((''u1'', ''u2'', ''B_TAG''), 1)]"
    by (simp add: bucket_counts_of_def item_pairs_def Let_def upt_rec)
  note t = capped_item_contributes_nothing[OF i c']
  have c1: "bucket_counts_of ?cfg (item_users_of ?L) = [((''u1'', ''u2'', ''B_TAG''), 1)]"
    using conjunct1[OF t] unfolding rest .
  have "stat_top_item (bucket_stat_of ?cfg ?L) = ''A_DOM'' @ '':'' @ ''x''
      \<and> stat_top_signal (bucket_stat_of ?cfg ?L) = ''A_DOM''"
    using conjunct2[OF t] most by (rule mp)
  then have c2: "stat_top_item (bucket_stat_of ?cfg ?L) = ''A_DOM:x''"
    and c3: "stat_top_signal (bucket_stat_of ?cfg ?L) = ''A_DOM''" by simp_all
  show ?thesis by (intro conjI) (rule i, rule c, rule c1, rule c2, rule c3)
qed

section \<open>The run and its reports\<close>
















text \<open>
  The bucket files: one per bucket number, and all of them empty when nothing is kept. An
  empty file reads back as no line.
\<close>

lemma bucketize_in_fresh:
  "bucketize_in cfg f kept records (fresh_tmp_dir stale) = bucketize cfg f kept records"
  by (simp add: bucketize_in_def bucketize_def fresh_tmp_dir_def)























text \<open>The run as a whole.\<close>

lemma main_cases:
  "main cfg f cc stale records =
     (case aggregate_buckets cfg (bucketize cfg f (kept_items cfg (count_items f records)) records) of
        Inl e \<Rightarrow> Inl e
      | Inr tables \<Rightarrow>
          (case time_window_rows cfg (snd tables) of
             Inl e \<Rightarrow> Inl e
           | Inr time_windows \<Rightarrow>
               Inr (reports cfg cc (fst tables)
                      (user_item_table f (kept_items cfg (count_items f records)) records)
                      time_windows)))"
  by (simp add: main_def Let_def bucketize_in_fresh)





text \<open>The example runs, pass by pass.\<close>

lemma shared_posts:
  "published_at post_shared_u1 = Some ''2024-01-01T00:00:00Z''"
  "published_at post_shared_u2 = Some ''2024-01-01T00:00:00Z''"
  "author_id post_shared_u1 = Some ''u1''"
  "author_id post_shared_u2 = Some ''u2''"
  "extract_items post_shared_u1 = [(''A_DOM'', ''d''), (''B_TAG'', ''x'')]"
  "extract_items post_shared_u2 = [(''A_DOM'', ''d''), (''B_TAG'', ''x'')]"
  by (simp_all add: post_shared_u1_def post_shared_u2_def empty_post_def extract_items_def
        add_items_def add_opt_def py_or_def truthy_def)

lemma shared_kept:
  "kept_items low_thresholds (count_items iso_example [post_shared_u1, post_shared_u2])
     = {(''A_DOM'', ''d''), (''B_TAG'', ''x'')}"
proof -
  have "count_items iso_example [post_shared_u1, post_shared_u2]
      = [((''A_DOM'', ''d''), 2), ((''B_TAG'', ''x''), 2)]"
    by (simp add: count_items_def shared_posts parse_example)
  then show ?thesis
    by (simp add: kept_items_def low_thresholds_def default_config_def)
qed

lemma shared_files:
  "bucketize low_thresholds iso_example {(''A_DOM'', ''d''), (''B_TAG'', ''x'')}
       [post_shared_u1, post_shared_u2]
     = [(473352, line_text (''A_DOM'', ''d'', ''u1'') @ line_text (''B_TAG'', ''x'', ''u1'')
                 @ line_text (''A_DOM'', ''d'', ''u2'') @ line_text (''B_TAG'', ''x'', ''u2''))]"
  by (simp add: bucketize_def bucketize_step_def shared_posts parse_example Let_def
        low_thresholds_def default_config_def)

lemma shared_read:
  "read_bucket (line_text (''A_DOM'', ''d'', ''u1'') @ line_text (''B_TAG'', ''x'', ''u1'')
                 @ line_text (''A_DOM'', ''d'', ''u2'') @ line_text (''B_TAG'', ''x'', ''u2''))
     = Inr [(''A_DOM'', ''d'', ''u1''), (''B_TAG'', ''x'', ''u1''),
            (''A_DOM'', ''d'', ''u2''), (''B_TAG'', ''x'', ''u2'')]"
  by (simp add: read_bucket_def file_lines_def line_text_def read_line_def strip_def is_space_def)

lemma shared_counts:
  "bucket_counts_of low_thresholds (item_users_of [(''A_DOM'', ''d'', ''u1''), (''B_TAG'', ''x'', ''u1''),
            (''A_DOM'', ''d'', ''u2''), (''B_TAG'', ''x'', ''u2'')])
     = [((''u1'', ''u2'', ''A_DOM''), 1), ((''u1'', ''u2'', ''B_TAG''), 1)]"
  by (simp add: item_users_of_def bucket_counts_of_def item_pairs_def Let_def upt_rec
        low_thresholds_def default_config_def)

lemma shared_stat:
  "bucket_stat_of low_thresholds [(''A_DOM'', ''d'', ''u1''), (''B_TAG'', ''x'', ''u1''),
            (''A_DOM'', ''d'', ''u2''), (''B_TAG'', ''x'', ''u2'')]
     = \<lparr>active_users = 2, num_coord_edges_created = 2, stat_top_signal = ''A_DOM'',
        stat_top_item = ''A_DOM:d''\<rparr>"
  by (simp add: bucket_stat_of_def item_users_of_def bucket_users_of_def bucket_tops_def
        top_step_def num_edges_created_of_def or_empty_def Let_def
        low_thresholds_def default_config_def)

lemma shared_tables:
  "aggregate_buckets low_thresholds
     (bucketize low_thresholds iso_example
        (kept_items low_thresholds (count_items iso_example [post_shared_u1, post_shared_u2]))
        [post_shared_u1, post_shared_u2])
     = Inr ([((''u1'', ''u2'', ''A_DOM''), 1), ((''u1'', ''u2'', ''B_TAG''), 1)],
            [(473352, \<lparr>active_users = 2, num_coord_edges_created = 2, stat_top_signal = ''A_DOM'',
                        stat_top_item = ''A_DOM:d''\<rparr>)])"
  unfolding shared_kept shared_files
  by (simp add: aggregate_buckets_def shared_read shared_counts shared_stat upsert_all_def)

lemma shared_windows:
  "time_window_rows low_thresholds
     [(473352, \<lparr>active_users = 2, num_coord_edges_created = 2, stat_top_signal = ''A_DOM'',
                 stat_top_item = ''A_DOM:d''\<rparr>)]
     = Inr [(1704067200, 1704070800,
             \<lparr>active_users = 2, num_coord_edges_created = 2, stat_top_signal = ''A_DOM'',
                stat_top_item = ''A_DOM:d''\<rparr>)]"
  by (simp add: time_window_rows_def utc_isoformat_def Let_def low_thresholds_def default_config_def)

lemma shared_reduce:
  "reduce_rows low_thresholds
     (scan_pair_signal [((''u1'', ''u2'', ''A_DOM''), 1), ((''u1'', ''u2'', ''B_TAG''), 1)])
   = \<lparr>current = Some (''u1'', ''u2''),
      sig_counts = [(''A_DOM'', 1), (''B_TAG'', 1)],
      total_occ = 2,
      written = [\<lparr>user_a = ''u1'', user_b = ''u2'', num_signals = 2, total_occurrences = 2,
                  signals = [''A_DOM'', ''B_TAG''],
                  signal_counts = [(''A_DOM'', 1), (''B_TAG'', 1)]\<rparr>],
      edges_written = 1, edge_seq = 1,
      top_edges = [(2, 1, \<lparr>user_a = ''u1'', user_b = ''u2'', num_signals = 2, total_occurrences = 2,
                  signals = [''A_DOM'', ''B_TAG''],
                  signal_counts = [(''A_DOM'', 1), (''B_TAG'', 1)]\<rparr>)],
      graph = [(''u1'', ''u2'', 2, [''A_DOM'', ''B_TAG''])]\<rparr>"
  by (simp add: scan_pair_signal_def pair_le_def row_pair_def reduce_rows_def reduce_step_def
        emit_edge_def reduce_init_def low_thresholds_def default_config_def Let_def)

lemma shared_clusters_asc:
  "cluster_rows [(''u1'', ''u2'', 2, [''A_DOM'', ''B_TAG''])]
     (one_component_asc [(''u1'', ''u2'', 2, [''A_DOM'', ''B_TAG''])])
   = [\<lparr>cluster_id = 0, cluster_size = 2, users_sample = [''u1'', ''u2''],
       top_signals = [(''A_DOM'', 2), (''B_TAG'', 2)]\<rparr>]"
  by (simp add: cluster_rows_def one_component_asc_def graph_nodes_def enumerate_from0_def
        component_signals_def incident_def most_common_def sorted_desc_def)

lemma shared_clusters_desc:
  "cluster_rows [(''u1'', ''u2'', 2, [''A_DOM'', ''B_TAG''])]
     (one_component_desc [(''u1'', ''u2'', 2, [''A_DOM'', ''B_TAG''])])
   = [\<lparr>cluster_id = 0, cluster_size = 2, users_sample = [''u2'', ''u1''],
       top_signals = [(''A_DOM'', 2), (''B_TAG'', 2)]\<rparr>]"
  by (simp add: cluster_rows_def one_component_desc_def graph_nodes_def enumerate_from0_def
        component_signals_def incident_def most_common_def sorted_desc_def)

lemma shared_out_clusters:
  "out_clusters (reports low_thresholds cc
      [((''u1'', ''u2'', ''A_DOM''), 1), ((''u1'', ''u2'', ''B_TAG''), 1)] user_item tw)
    = Some (cluster_rows [(''u1'', ''u2'', 2, [''A_DOM'', ''B_TAG''])]
              (cc [(''u1'', ''u2'', 2, [''A_DOM'', ''B_TAG''])]))"
  unfolding reports_def shared_reduce
  by (simp add: Let_def number_of_nodes_def low_thresholds_def default_config_def)

lemma shared_main:
  "main low_thresholds iso_example cc stale [post_shared_u1, post_shared_u2]
     = Inr (reports low_thresholds cc
              [((''u1'', ''u2'', ''A_DOM''), 1), ((''u1'', ''u2'', ''B_TAG''), 1)]
              (user_item_table iso_example
                 (kept_items low_thresholds (count_items iso_example [post_shared_u1, post_shared_u2]))
                 [post_shared_u1, post_shared_u2])
              [(1704067200, 1704070800,
                \<lparr>active_users = 2, num_coord_edges_created = 2, stat_top_signal = ''A_DOM'',
                   stat_top_item = ''A_DOM:d''\<rparr>)])"
  unfolding main_cases shared_tables by (simp add: shared_windows)
































text \<open>
  Claim C8, amended. With the same input and configuration, the result of the run does not
  depend on what an earlier run left in the temporary directory; and the edge table, the
  top-edges report, the time-window report, the coordination graph and the bipartite graph
  are the same whatever order the library lists the components and their members in. (The
  order of the directory listing and the order in which the store returns rows with equal
  sort keys are fixed by the embedding.) The cluster table and the top-clusters report are
  left out: they follow the order of \<open>list(comp)\<close>.
\<close>

theorem rerun_outputs:
  "main cfg f cc stale records = main cfg f cc stale' records
   \<and> map_sum id out_edges (main cfg f cc stale records)
       = map_sum id out_edges (main cfg f cc' stale' records)
   \<and> map_sum id out_top_edges (main cfg f cc stale records)
       = map_sum id out_top_edges (main cfg f cc' stale' records)
   \<and> map_sum id out_time_windows (main cfg f cc stale records)
       = map_sum id out_time_windows (main cfg f cc' stale' records)
   \<and> map_sum id out_graph (main cfg f cc stale records)
       = map_sum id out_graph (main cfg f cc' stale' records)
   \<and> map_sum id out_bip (main cfg f cc stale records)
       = map_sum id out_bip (main cfg f cc' stale' records)"
  unfolding main_cases
  by (simp add: reports_def Let_def split: sum.splits)

text \<open>
  Claim C8 as stated fails for the cluster table. Two users who share a domain and a
  hashtag form one component; listed as \<open>u1, u2\<close> in one run and as \<open>u2, u1\<close> in the other
  (the iteration order of a Python set of strings changes from process to process), the
  column \<open>users_sample\<close> differs.
\<close>

theorem member_order_counterexample:
  "map set (one_component_asc [(''u1'', ''u2'', 2, [''A_DOM'', ''B_TAG''])]) = [{''u1'', ''u2''}]
   \<and> map set (one_component_desc [(''u1'', ''u2'', 2, [''A_DOM'', ''B_TAG''])]) = [{''u1'', ''u2''}]
   \<and> map_sum id out_clusters
     (main low_thresholds iso_example one_component_asc [] [post_shared_u1, post_shared_u2])
     = Inr (Some [\<lparr>cluster_id = 0, cluster_size = 2, users_sample = [''u1'', ''u2''],
                   top_signals = [(''A_DOM'', 2), (''B_TAG'', 2)]\<rparr>])
   \<and> map_sum id out_clusters
     (main low_thresholds iso_example one_component_desc [] [post_shared_u1, post_shared_u2])
     = Inr (Some [\<lparr>cluster_id = 0, cluster_size = 2, users_sample = [''u2'', ''u1''],
                   top_signals = [(''A_DOM'', 2), (''B_TAG'', 2)]\<rparr>])"
proof -
  have a: "map set (one_component_asc [(''u1'', ''u2'', 2, [''A_DOM'', ''B_TAG''])]) = [{''u1'', ''u2''}]"
    by (simp add: one_component_asc_def graph_nodes_def)
  have d: "map set (one_component_desc [(''u1'', ''u2'', 2, [''A_DOM'', ''B_TAG''])]) = [{''u1'', ''u2''}]"
    by (simp add: one_component_desc_def graph_nodes_def insert_commute)
  have r: "map_sum id out_clusters
     (main low_thresholds iso_example one_component_asc [] [post_shared_u1, post_shared_u2])
     = Inr (Some [\<lparr>cluster_id = 0, cluster_size = 2, users_sample = [''u1'', ''u2''],
                   top_signals = [(''A_DOM'', 2), (''B_TAG'', 2)]\<rparr>])"
    unfolding shared_main by (simp add: shared_out_clusters shared_clusters_asc)
  have s: "map_sum id out_clusters
     (main low_thresholds iso_example one_component_desc [] [post_shared_u1, post_shared_u2])
     = Inr (Some [\<lparr>cluster_id = 0, cluster_size = 2, users_sample = [''u2'', ''u1''],
                   top_signals = [(''A_DOM'', 2), (''B_TAG'', 2)]\<rparr>])"
    unfolding shared_main by (simp add: shared_out_clusters shared_clusters_desc)
  show ?thesis by (intro conjI) (rule a, rule d, rule r, rule s)
qed

end
